theory Spec2Isabelle
  imports Main "HOL-Library.Word"
begin

section \<open>The LRU-K cache of LRU-K.cpp\<close>

text \<open>
  The development embeds the class \<^verbatim>\<open>LRUK_Cache<KEY, VALUE>\<close> of \<^verbatim>\<open>LRU-K.cpp\<close>: its two
  \<^verbatim>\<open>std::list\<close>s of entries, its two index maps, the private lookup routines and the
  public operations \<^verbatim>\<open>get\<close>, \<open>put\<close> and \<open>clear\<close>.

  Conventions of the embedding.
  \<^item> \<^verbatim>\<open>steady_clock::now()\<close> is an input: every operation takes the clock reading
    \<open>now\<close> it obtains. From a reachable state a call reads the clock at most once
    (a second read needs a key that the cache list's index holds with too few
    readings, which the invariant excludes); the embedding passes the one reading to
    every push of the call. No property below assumes anything about successive
    readings unless it says so.
  \<^item> A \<^verbatim>\<open>std::queue\<close> of time points is a list, oldest reading first: \<^verbatim>\<open>push\<close> appends,
    \<^verbatim>\<open>pop\<close> drops the head, \<^verbatim>\<open>front\<close> is the head.
  \<^item> A \<^verbatim>\<open>std::list\<close> of entries is a list of entry records. List nodes keep their
    identity under \<^verbatim>\<open>sort\<close> and \<^verbatim>\<open>splice\<close>, so an iterator is represented by the node
    it designates.
  \<^item> Each \<^verbatim>\<open>unordered_map<KEY, iterator>\<close> is represented by its set of keys. The
    iterator stored under a key \<open>k\<close> always designates a node holding \<open>k\<close> (every
    \<^verbatim>\<open>emplace\<close> in the source stores such an iterator); the embedding resolves it to
    the first node of the list that holds \<open>k\<close>, and treats a key whose list has no
    such node as a dangling iterator.
  \<^item> Undefined behaviour of the C++ (decrementing \<^verbatim>\<open>end()\<close> of an empty list,
    dereferencing \<^verbatim>\<open>end()\<close> or a dangling iterator) is the result \<open>None\<close>. Comparing
    an iterator of one list with \<^verbatim>\<open>end()\<close> of the other, as \<^verbatim>\<open>get\<close> and \<^verbatim>\<open>put\<close> do after a
    promotion, is taken to yield "different", which is what the node pointers give.
  \<^item> A data member \<^verbatim>\<open>x_\<close> of the source is the record field \<open>m_x\<close>.
  \<^item> \<^verbatim>\<open>capacity_\<close> and \<^verbatim>\<open>k_\<close> are 32-bit \<^verbatim>\<open>int\<close>s. The source compares them with
    \<^verbatim>\<open>size()\<close> results of type \<^verbatim>\<open>size_t\<close>, which converts the \<^verbatim>\<open>int\<close> to an unsigned
    64-bit value first.
\<close>

subsection \<open>Data\<close>

type_synonym time_point = nat

type_synonym cpp_int = "32 word"

record ('k, 'v) CacheEntry =
  m_key :: 'k
  m_value :: 'v
  m_access_time :: "time_point list"

record ('k, 'v) LRUK_Cache =
  m_capacity :: cpp_int
  m_k :: cpp_int
  m_historyList :: "('k, 'v) CacheEntry list"
  m_cacheList :: "('k, 'v) CacheEntry list"
  m_history_map :: "'k set"
  m_cache_map :: "'k set"

text \<open>The four values an iterator returned by the lookup routines can have, for the key
  that was looked up: past-the-end of one of the two lists, or the node of that list
  holding the key.\<close>

datatype iterator = CacheEnd | CacheNode | HistoryEnd | HistoryNode

text \<open>The conversion of an \<^verbatim>\<open>int\<close> operand to \<^verbatim>\<open>size_t\<close>: sign extension to 64 bits, read
  as unsigned.\<close>

definition to_size_t :: "cpp_int \<Rightarrow> nat" where
  "to_size_t i = unat (scast i :: 64 word)"

subsection \<open>Entries and their queue of access times\<close>

text \<open>\<^verbatim>\<open>CacheEntry(KEY k, VALUE v) : key_(k), value_(v) {}\<close>\<close>

definition CacheEntry_new :: "'k \<Rightarrow> 'v \<Rightarrow> ('k, 'v) CacheEntry" where
  "CacheEntry_new k v = \<lparr>m_key = k, m_value = v, m_access_time = []\<rparr>"

text \<open>\<^verbatim>\<open>access_time_.push(now)\<close>, \<^verbatim>\<open>access_time_.pop()\<close> and \<^verbatim>\<open>access_time_.front()\<close>.
  The source pops only right after a push, and reads the front only of entries of the
  cache list, whose queues are never empty (lemma \<open>inv_reachable\<close>).\<close>

definition push_time :: "time_point \<Rightarrow> ('k, 'v) CacheEntry \<Rightarrow> ('k, 'v) CacheEntry" where
  "push_time now e = e\<lparr>m_access_time := m_access_time e @ [now]\<rparr>"

definition pop_time :: "('k, 'v) CacheEntry \<Rightarrow> ('k, 'v) CacheEntry" where
  "pop_time e = e\<lparr>m_access_time := tl (m_access_time e)\<rparr>"

definition front_time :: "('k, 'v) CacheEntry \<Rightarrow> time_point" where
  "front_time e = hd (m_access_time e)"

text \<open>\<^verbatim>\<open>compareByAccessTime(a, b)\<close>: \<^verbatim>\<open>a.access_time_.front() > b.access_time_.front()\<close>.\<close>

definition compareByAccessTime :: "('k, 'v) CacheEntry \<Rightarrow> ('k, 'v) CacheEntry \<Rightarrow> bool" where
  "compareByAccessTime a b = (front_time a > front_time b)"

subsection \<open>List primitives\<close>

text \<open>\<^verbatim>\<open>std::list::sort(comp)\<close> is a stable sort: the result is ordered by \<open>cmp\<close> and
  elements that \<open>cmp\<close> does not separate keep their relative order. Insertion from the
  right end, each element going in front of the first one it does not have to follow,
  computes that list.\<close>

fun insert_sorted :: "('a \<Rightarrow> 'a \<Rightarrow> bool) \<Rightarrow> 'a \<Rightarrow> 'a list \<Rightarrow> 'a list" where
  "insert_sorted cmp x [] = [x]"
| "insert_sorted cmp x (y # ys) =
     (if cmp y x then y # insert_sorted cmp x ys else x # y # ys)"

definition list_sort :: "('a \<Rightarrow> 'a \<Rightarrow> bool) \<Rightarrow> 'a list \<Rightarrow> 'a list" where
  "list_sort cmp xs = foldr (insert_sorted cmp) xs []"

text \<open>The first node of a list holding key \<open>k\<close> (the loop of \<^verbatim>\<open>findCacheEntry\<close>), the
  list with a function applied to that node, and the list with that node erased.\<close>

fun find_entry :: "'k \<Rightarrow> ('k, 'v) CacheEntry list \<Rightarrow> ('k, 'v) CacheEntry option" where
  "find_entry k [] = None"
| "find_entry k (e # es) = (if m_key e = k then Some e else find_entry k es)"

fun update_entry ::
  "'k \<Rightarrow> (('k, 'v) CacheEntry \<Rightarrow> ('k, 'v) CacheEntry) \<Rightarrow> ('k, 'v) CacheEntry list
    \<Rightarrow> ('k, 'v) CacheEntry list" where
  "update_entry k f [] = []"
| "update_entry k f (e # es) = (if m_key e = k then f e # es else e # update_entry k f es)"

fun erase_entry :: "'k \<Rightarrow> ('k, 'v) CacheEntry list \<Rightarrow> ('k, 'v) CacheEntry list" where
  "erase_entry k [] = []"
| "erase_entry k (e # es) = (if m_key e = k then es else e # erase_entry k es)"

subsection \<open>The private member functions\<close>

text \<open>\<^verbatim>\<open>findVictimFromCache\<close> and \<^verbatim>\<open>findVictimFromHistory\<close> return \<^verbatim>\<open>--list.end()\<close>, the last
  node; on an empty list the decrement is undefined.\<close>

definition findVictimFromCache :: "('k, 'v) LRUK_Cache \<Rightarrow> ('k, 'v) CacheEntry option" where
  "findVictimFromCache s = (if m_cacheList s = [] then None else Some (last (m_cacheList s)))"

definition findVictimFromHistory :: "('k, 'v) LRUK_Cache \<Rightarrow> ('k, 'v) CacheEntry option" where
  "findVictimFromHistory s =
     (if m_historyList s = [] then None else Some (last (m_historyList s)))"

definition findCacheEntry :: "('k, 'v) LRUK_Cache \<Rightarrow> 'k \<Rightarrow> iterator" where
  "findCacheEntry s k =
     (case find_entry k (m_cacheList s) of None \<Rightarrow> CacheEnd | Some e \<Rightarrow> CacheNode)"

text \<open>\<^verbatim>\<open>getFromCacheList(k)\<close>. When the key is in \<^verbatim>\<open>cache_map_\<close>, the reading is pushed; only
  if the queue then holds more than \<^verbatim>\<open>k_\<close> readings is the oldest popped, the list
  sorted and the node returned. Otherwise the routine returns \<^verbatim>\<open>cacheList_.end()\<close>.\<close>

definition getFromCacheList ::
  "('k, 'v) LRUK_Cache \<Rightarrow> time_point \<Rightarrow> 'k \<Rightarrow> (iterator \<times> ('k, 'v) LRUK_Cache) option" where
  "getFromCacheList s now k =
     (if k \<notin> m_cache_map s then Some (CacheEnd, s)
      else
        (case find_entry k (m_cacheList s) of
           None \<Rightarrow> None
         | Some e \<Rightarrow>
             let s1 = s\<lparr>m_cacheList := update_entry k (push_time now) (m_cacheList s)\<rparr> in
             if to_size_t (m_k s1) < length (m_access_time (push_time now e)) then
               let s2 = s1\<lparr>m_cacheList := update_entry k pop_time (m_cacheList s1)\<rparr>;
                   s3 = s2\<lparr>m_cacheList := list_sort compareByAccessTime (m_cacheList s2)\<rparr>;
                   ret = findCacheEntry s3 k;
                   s4 = s3\<lparr>m_cache_map := insert k (m_cache_map s3 - {k})\<rparr>
               in Some (ret, s4)
             else Some (CacheEnd, s1)))"

text \<open>\<^verbatim>\<open>getFromHistoryList(k)\<close>. \<open>e0\<close> is the node \<^verbatim>\<open>entry_it\<close>, \<open>e1\<close> the node after the push,
  \<open>e2\<close> after the conditional pop. In the promotion branches \<^verbatim>\<open>*entry_it\<close> is copied to
  the end of the cache list and \<^verbatim>\<open>entry_it\<close> erased from the history list; when the
  cache list is full, \<^verbatim>\<open>vict\<close> (its last node before the copy was appended) is copied to
  the front of the history list and erased from the cache list. Otherwise \<^verbatim>\<open>entry_it\<close>
  is spliced to the front of the history list.\<close>

definition getFromHistoryList ::
  "('k, 'v) LRUK_Cache \<Rightarrow> time_point \<Rightarrow> 'k \<Rightarrow> (iterator \<times> ('k, 'v) LRUK_Cache) option" where
  "getFromHistoryList s now k =
     (if k \<notin> m_history_map s then Some (HistoryEnd, s)
      else
        (case find_entry k (m_historyList s) of
           None \<Rightarrow> None
         | Some e0 \<Rightarrow>
             let e1 = push_time now e0 in
             if to_size_t (m_k s) \<le> length (m_access_time e1) then
               let e2 = (if to_size_t (m_k s) < length (m_access_time e1) then pop_time e1 else e1) in
               if length (m_cacheList s) < to_size_t (m_capacity s) then
                 let s1 = s\<lparr>m_cacheList := m_cacheList s @ [e2]\<rparr>;
                     s2 = s1\<lparr>m_history_map := m_history_map s1 - {m_key e2}\<rparr>;
                     s3 = s2\<lparr>m_historyList := erase_entry k (m_historyList s2)\<rparr>;
                     s4 = s3\<lparr>m_cacheList := list_sort compareByAccessTime (m_cacheList s3)\<rparr>;
                     ret = findCacheEntry s4 k
                 in Some (ret, s4\<lparr>m_cache_map := insert k (m_cache_map s4)\<rparr>)
               else
                 (case findVictimFromCache s of
                    None \<Rightarrow> None
                  | Some vict \<Rightarrow>
                      let s1 = s\<lparr>m_cacheList := m_cacheList s @ [e2]\<rparr>;
                          s2 = s1\<lparr>m_historyList := vict # m_historyList s1\<rparr>;
                          s3 = s2\<lparr>m_history_map := insert (m_key vict) (m_history_map s2)\<rparr>;
                          s4 = s3\<lparr>m_cache_map := m_cache_map s3 - {m_key vict}\<rparr>;
                          s5 = s4\<lparr>m_cacheList := butlast (m_cacheList s) @ [e2]\<rparr>;
                          s6 = s5\<lparr>m_history_map := m_history_map s5 - {m_key e2}\<rparr>;
                          s7 = s6\<lparr>m_historyList := vict # erase_entry k (m_historyList s)\<rparr>;
                          s8 = s7\<lparr>m_cacheList := list_sort compareByAccessTime (m_cacheList s7)\<rparr>;
                          ret = findCacheEntry s8 k
                      in Some (ret, s8\<lparr>m_cache_map := insert k (m_cache_map s8)\<rparr>))
             else
               Some (HistoryNode, s\<lparr>m_historyList := e1 # erase_entry k (m_historyList s)\<rparr>)))"

subsection \<open>The public interface\<close>

text \<open>\<^verbatim>\<open>LRUK_Cache(int c, int k) : capacity_(c), k_(k) {}\<close>: the member initialisers, with
  the four containers default-constructed. The constructor body is empty: it checks
  nothing and throws nothing, so construction yields an instance for every pair of
  arguments. \<open>construct\<close> states that with a result type in which a rejected
  construction would be \<open>None\<close>.\<close>

definition LRUK_Cache_init :: "cpp_int \<Rightarrow> cpp_int \<Rightarrow> ('k, 'v) LRUK_Cache" where
  "LRUK_Cache_init c k =
     \<lparr>m_capacity = c, m_k = k, m_historyList = [], m_cacheList = [],
      m_history_map = {}, m_cache_map = {}\<rparr>"

definition construct :: "cpp_int \<Rightarrow> cpp_int \<Rightarrow> ('k, 'v) LRUK_Cache option" where
  "construct c k = Some (LRUK_Cache_init c k)"

text \<open>Reading and writing through a returned iterator: \<^verbatim>\<open>entry_it->value_\<close> and
  \<^verbatim>\<open>entry_it->value_ = v\<close>.\<close>

definition deref ::
  "iterator \<Rightarrow> 'k \<Rightarrow> ('k, 'v) LRUK_Cache \<Rightarrow> ('k, 'v) CacheEntry option" where
  "deref it k s =
     (case it of
        CacheNode \<Rightarrow> find_entry k (m_cacheList s)
      | HistoryNode \<Rightarrow> find_entry k (m_historyList s)
      | CacheEnd \<Rightarrow> None
      | HistoryEnd \<Rightarrow> None)"

definition assign_value ::
  "iterator \<Rightarrow> 'k \<Rightarrow> 'v \<Rightarrow> ('k, 'v) LRUK_Cache \<Rightarrow> ('k, 'v) LRUK_Cache option" where
  "assign_value it k v s =
     (case it of
        CacheNode \<Rightarrow>
          (case find_entry k (m_cacheList s) of
             None \<Rightarrow> None
           | Some e \<Rightarrow>
               Some (s\<lparr>m_cacheList := update_entry k (\<lambda>e. e\<lparr>m_value := v\<rparr>) (m_cacheList s)\<rparr>))
      | HistoryNode \<Rightarrow>
          (case find_entry k (m_historyList s) of
             None \<Rightarrow> None
           | Some e \<Rightarrow>
               Some (s\<lparr>m_historyList := update_entry k (\<lambda>e. e\<lparr>m_value := v\<rparr>) (m_historyList s)\<rparr>))
      | CacheEnd \<Rightarrow> None
      | HistoryEnd \<Rightarrow> None)"

text \<open>\<^verbatim>\<open>VALUE get(KEY k, bool &found)\<close>. The result \<open>Some v\<close> stands for \<^verbatim>\<open>found = true\<close> with
  returned value \<open>v\<close>, the result \<open>None\<close> for \<^verbatim>\<open>found = false\<close> with the returned
  \<^verbatim>\<open>VALUE()\<close>.\<close>

definition get ::
  "('k, 'v) LRUK_Cache \<Rightarrow> time_point \<Rightarrow> 'k \<Rightarrow> ('v option \<times> ('k, 'v) LRUK_Cache) option" where
  "get s now k =
     (case getFromCacheList s now k of
        None \<Rightarrow> None
      | Some (entry_it, s1) \<Rightarrow>
          if entry_it \<noteq> CacheEnd then
            (case deref entry_it k s1 of
               None \<Rightarrow> None
             | Some e \<Rightarrow> Some (Some (m_value e), s1))
          else
            (case getFromHistoryList s1 now k of
               None \<Rightarrow> None
             | Some (entry_it, s2) \<Rightarrow>
                 if entry_it \<noteq> HistoryEnd then
                   (case deref entry_it k s2 of
                      None \<Rightarrow> None
                    | Some e \<Rightarrow> Some (Some (m_value e), s2))
                 else Some (None, s2)))"

text \<open>\<^verbatim>\<open>void put(KEY k, VALUE v)\<close>.\<close>

definition put ::
  "('k, 'v) LRUK_Cache \<Rightarrow> time_point \<Rightarrow> 'k \<Rightarrow> 'v \<Rightarrow> ('k, 'v) LRUK_Cache option" where
  "put s now k v =
     (case getFromCacheList s now k of
        None \<Rightarrow> None
      | Some (entry_it, s1) \<Rightarrow>
          if entry_it \<noteq> CacheEnd then assign_value entry_it k v s1
          else
            (case getFromHistoryList s1 now k of
               None \<Rightarrow> None
             | Some (entry_it, s2) \<Rightarrow>
                 if entry_it \<noteq> HistoryEnd then assign_value entry_it k v s2
                 else if length (m_historyList s2) < to_size_t (m_capacity s2) then
                   Some (s2\<lparr>m_historyList := push_time now (CacheEntry_new k v) # m_historyList s2,
                            m_history_map := insert k (m_history_map s2)\<rparr>)
                 else
                   (case findVictimFromHistory s2 of
                      None \<Rightarrow> None
                    | Some vict \<Rightarrow>
                        let s3 = s2\<lparr>m_history_map := m_history_map s2 - {m_key vict}\<rparr>;
                            s4 = s3\<lparr>m_historyList := butlast (m_historyList s3)\<rparr>;
                            s5 = s4\<lparr>m_historyList :=
                                      push_time now (CacheEntry_new k v) # m_historyList s4\<rparr>
                        in Some (s5\<lparr>m_history_map := insert k (m_history_map s5)\<rparr>))))"

text \<open>\<^verbatim>\<open>void clear()\<close>.\<close>

definition clear :: "('k, 'v) LRUK_Cache \<Rightarrow> ('k, 'v) LRUK_Cache" where
  "clear s = s\<lparr>m_history_map := {}, m_historyList := [], m_cache_map := {}, m_cacheList := []\<rparr>"

subsection \<open>Sequences of operations and reachable states\<close>

datatype ('k, 'v) operation = Get 'k | Put 'k 'v | Clear

text \<open>One call of the public interface with its clock reading; the value returned by
  \<open>get\<close> is dropped.\<close>

fun step ::
  "('k, 'v) LRUK_Cache \<Rightarrow> time_point \<times> ('k, 'v) operation \<Rightarrow> ('k, 'v) LRUK_Cache option" where
  "step s (now, Get k) = (case get s now k of None \<Rightarrow> None | Some (r, s') \<Rightarrow> Some s')"
| "step s (now, Put k v) = put s now k v"
| "step s (now, Clear) = Some (clear s)"

fun run ::
  "('k, 'v) LRUK_Cache \<Rightarrow> (time_point \<times> ('k, 'v) operation) list \<Rightarrow> ('k, 'v) LRUK_Cache option"
  where
  "run s [] = Some s"
| "run s (x # xs) = (case step s x of None \<Rightarrow> None | Some s' \<Rightarrow> run s' xs)"

text \<open>The states a cache constructed with \<open>(c, k)\<close> can be in: the constructed state and
  every state a defined call of \<open>get\<close>, \<open>put\<close> or \<open>clear\<close> leads to, with any clock
  readings.\<close>

inductive reachable :: "cpp_int \<Rightarrow> cpp_int \<Rightarrow> ('k, 'v) LRUK_Cache \<Rightarrow> bool"
  for c :: cpp_int and k :: cpp_int where
  reachable_init: "reachable c k (LRUK_Cache_init c k)"
| reachable_get: "reachable c k s \<Longrightarrow> get s now key = Some (r, s') \<Longrightarrow> reachable c k s'"
| reachable_put: "reachable c k s \<Longrightarrow> put s now key v = Some s' \<Longrightarrow> reachable c k s'"
| reachable_clear: "reachable c k s \<Longrightarrow> reachable c k (clear s)"

subsection \<open>Vocabulary of the properties\<close>

text \<open>The key an operation accesses.\<close>

fun op_key :: "('k, 'v) operation \<Rightarrow> 'k option" where
  "op_key (Get k) = Some k"
| "op_key (Put k v) = Some k"
| "op_key Clear = None"

text \<open>The states a sequence of operations passes through, the first one included; the
  list stops where a call is undefined.\<close>

fun trace ::
  "('k, 'v) LRUK_Cache \<Rightarrow> (time_point \<times> ('k, 'v) operation) list \<Rightarrow> ('k, 'v) LRUK_Cache list"
  where
  "trace s [] = [s]"
| "trace s (x # xs) = s # (case step s x of None \<Rightarrow> [] | Some s' \<Rightarrow> trace s' xs)"

text \<open>A key is resident when one of the two index maps holds it. \<open>promotions k ss\<close>
  counts the steps of a state sequence at which \<open>k\<close> enters the cache list's index.\<close>

definition resident :: "'k \<Rightarrow> ('k, 'v) LRUK_Cache \<Rightarrow> bool" where
  "resident k s \<longleftrightarrow> k \<in> m_history_map s \<or> k \<in> m_cache_map s"

fun promotions :: "'k \<Rightarrow> ('k, 'v) LRUK_Cache list \<Rightarrow> nat" where
  "promotions k (s # s' # ss) =
     (if k \<notin> m_cache_map s \<and> k \<in> m_cache_map s' then 1 else 0) + promotions k (s' # ss)"
| "promotions k ss = 0"


text \<open>The number of operations of a sequence that access a key.\<close>

definition accesses :: "'k \<Rightarrow> (time_point \<times> ('k, 'v) operation) list \<Rightarrow> nat" where
  "accesses key ops = length (filter (\<lambda>x. op_key (snd x) = Some key) ops)"

text \<open>The cache list is ordered newest first by the front (oldest retained) reading.\<close>

definition newer_first :: "('k, 'v) CacheEntry list \<Rightarrow> bool" where
  "newer_first xs = sorted_wrt (\<lambda>a b. front_time b \<le> front_time a) xs"

text \<open>The number of readings an entry of the cache list holds: \<^verbatim>\<open>k_\<close> converted to
  \<^verbatim>\<open>size_t\<close>, and one when that is zero.\<close>

definition window :: "cpp_int \<Rightarrow> nat" where
  "window k = max 1 (to_size_t k)"

definition windows_ok :: "('k, 'v) LRUK_Cache \<Rightarrow> bool" where
  "windows_ok s \<longleftrightarrow>
     (\<forall>e \<in> set (m_cacheList s). length (m_access_time e) = window (m_k s)) \<and>
     (\<forall>e \<in> set (m_historyList s).
        1 \<le> length (m_access_time e) \<and> length (m_access_time e) \<le> window (m_k s))"

text \<open>Each index map holds exactly the keys of its list, no list holds a key twice and
  no key is in both lists.\<close>

definition index_ok :: "('k, 'v) LRUK_Cache \<Rightarrow> bool" where
  "index_ok s \<longleftrightarrow>
     distinct (map m_key (m_historyList s)) \<and> distinct (map m_key (m_cacheList s)) \<and>
     m_history_map s = m_key ` set (m_historyList s) \<and>
     m_cache_map s = m_key ` set (m_cacheList s) \<and>
     m_key ` set (m_historyList s) \<inter> m_key ` set (m_cacheList s) = {}"

definition sizes_ok :: "('k, 'v) LRUK_Cache \<Rightarrow> bool" where
  "sizes_ok s \<longleftrightarrow>
     length (m_historyList s) \<le> to_size_t (m_capacity s) \<and>
     length (m_cacheList s) \<le> to_size_t (m_capacity s)"

definition cache_inv :: "('k, 'v) LRUK_Cache \<Rightarrow> bool" where
  "cache_inv s \<longleftrightarrow> windows_ok s \<and> index_ok s \<and> sizes_ok s \<and> newer_first (m_cacheList s)"

text \<open>The entry \<^verbatim>\<open>getFromHistoryList\<close> copies into the cache list: the history node after
  the push and the conditional pop.\<close>

definition promoted :: "cpp_int \<Rightarrow> time_point \<Rightarrow> ('k, 'v) CacheEntry \<Rightarrow> ('k, 'v) CacheEntry" where
  "promoted kk now e0 =
     (if to_size_t kk < length (m_access_time (push_time now e0))
      then pop_time (push_time now e0) else push_time now e0)"

text \<open>The two lookups that \<open>get\<close> and \<open>put\<close> both begin with (lemmas \<open>get_touch\<close> and
  \<open>put_touch\<close>).\<close>

definition touch ::
  "('k, 'v) LRUK_Cache \<Rightarrow> time_point \<Rightarrow> 'k \<Rightarrow> (iterator \<times> ('k, 'v) LRUK_Cache) option" where
  "touch s now k =
     (case getFromCacheList s now k of
        None \<Rightarrow> None
      | Some (it, s1) \<Rightarrow> if it \<noteq> CacheEnd then Some (it, s1) else getFromHistoryList s1 now k)"

text \<open>The state with the value stored under \<open>k\<close> replaced by \<open>v\<close> and nothing else
  changed.\<close>

definition overwrite :: "'k \<Rightarrow> 'v \<Rightarrow> ('k, 'v) LRUK_Cache \<Rightarrow> ('k, 'v) LRUK_Cache" where
  "overwrite k v s =
     s\<lparr>m_cacheList := update_entry k (\<lambda>e. e\<lparr>m_value := v\<rparr>) (m_cacheList s),
       m_historyList := update_entry k (\<lambda>e. e\<lparr>m_value := v\<rparr>) (m_historyList s)\<rparr>"

text \<open>The state after a promotion: the two promotion branches of
  \<^verbatim>\<open>getFromHistoryList\<close>, the first when the cache list has room, the second when it is
  full and its last node goes back to the front of the history list.\<close>

definition promote_state ::
  "('k, 'v) LRUK_Cache \<Rightarrow> time_point \<Rightarrow> 'k \<Rightarrow> ('k, 'v) CacheEntry \<Rightarrow> ('k, 'v) LRUK_Cache" where
  "promote_state s now k e0 =
     (if length (m_cacheList s) < to_size_t (m_capacity s) then
        s\<lparr>m_cacheList := list_sort compareByAccessTime (m_cacheList s @ [promoted (m_k s) now e0]),
          m_history_map := m_history_map s - {k},
          m_historyList := erase_entry k (m_historyList s),
          m_cache_map := insert k (m_cache_map s)\<rparr>
      else
        s\<lparr>m_cacheList := list_sort compareByAccessTime
            (butlast (m_cacheList s) @ [promoted (m_k s) now e0]),
          m_history_map := insert (m_key (last (m_cacheList s))) (m_history_map s) - {k},
          m_historyList := last (m_cacheList s) # erase_entry k (m_historyList s),
          m_cache_map := insert k (m_cache_map s - {m_key (last (m_cacheList s))})\<rparr>)"

section \<open>Auxiliary facts\<close>

subsection \<open>Conversion of the parameters\<close>

lemma to_size_t_mod: "to_size_t c = nat (sint c mod 2 ^ 64)"
proof -
  have "sint (scast c :: 64 word) = sint c"
    by (rule sint_up_scast) (simp add: is_up)
  then have "uint (scast c :: 64 word) = take_bit 64 (sint c)"
    using uint_sint [of "scast c :: 64 word"] by simp
  then have "nat (uint (scast c :: 64 word)) = nat (sint c mod 2 ^ 64)"
    by (simp only: take_bit_eq_mod)
  then show ?thesis
    by (simp only: to_size_t_def unat_eq_nat_uint)
qed

lemma to_size_t_nonneg: "0 \<le> sint c \<Longrightarrow> to_size_t c = nat (sint c)"
proof -
  assume a: "0 \<le> sint c"
  have "sint c < 2 ^ 31" using sint_lt [of c] by simp
  then have "sint c < 2 ^ 64" by simp
  with a show ?thesis by (simp add: to_size_t_mod)
qed

subsection \<open>Sorting\<close>

lemma set_insert_sorted: "set (insert_sorted cmp x ys) = insert x (set ys)"
  by (induction ys) auto

lemma set_list_sort: "set (list_sort cmp xs) = set xs"
  by (induction xs) (simp_all add: list_sort_def set_insert_sorted)

lemma length_insert_sorted: "length (insert_sorted cmp x ys) = Suc (length ys)"
  by (induction ys) auto

lemma length_list_sort: "length (list_sort cmp xs) = length xs"
  by (induction xs) (simp_all add: list_sort_def length_insert_sorted)

lemma distinct_map_insert_sorted:
  "distinct (map f (insert_sorted cmp x ys)) = (f x \<notin> f ` set ys \<and> distinct (map f ys))"
  by (induction ys) (auto simp: set_insert_sorted)

lemma distinct_map_list_sort: "distinct (map f (list_sort cmp xs)) = distinct (map f xs)"
proof (induction xs)
  case Nil
  show ?case by (simp add: list_sort_def)
next
  case (Cons x xs)
  have "list_sort cmp (x # xs) = insert_sorted cmp x (list_sort cmp xs)"
    by (simp add: list_sort_def)
  with Cons show ?case
    by (simp add: distinct_map_insert_sorted set_list_sort)
qed

lemma newer_first_insert_sorted:
  "newer_first ys \<Longrightarrow> newer_first (insert_sorted compareByAccessTime x ys)"
  unfolding newer_first_def
  by (induction ys) (auto simp: set_insert_sorted compareByAccessTime_def)

lemma newer_first_list_sort: "newer_first (list_sort compareByAccessTime xs)"
proof (induction xs)
  case Nil
  show ?case by (simp add: list_sort_def newer_first_def)
next
  case (Cons x xs)
  have "list_sort compareByAccessTime (x # xs) =
      insert_sorted compareByAccessTime x (list_sort compareByAccessTime xs)"
    by (simp add: list_sort_def)
  with Cons show ?case
    by (simp add: newer_first_insert_sorted)
qed

subsection \<open>Lookup, update and erasure by key\<close>

lemma find_entry_None_iff: "find_entry k xs = None \<longleftrightarrow> k \<notin> m_key ` set xs"
  by (induction xs) auto

lemma find_entry_SomeD: "find_entry k xs = Some e \<Longrightarrow> e \<in> set xs \<and> m_key e = k"
  by (induction xs) (auto split: if_splits)

lemma find_entry_distinct:
  "distinct (map m_key xs) \<Longrightarrow> e \<in> set xs \<Longrightarrow> find_entry (m_key e) xs = Some e"
  by (induction xs) auto

lemma find_entry_list_sort:
  assumes "distinct (map m_key xs)"
  shows "find_entry k (list_sort cmp xs) = find_entry k xs"
proof (cases "find_entry k xs")
  case None
  then show ?thesis
    using find_entry_None_iff [of k "list_sort cmp xs"] find_entry_None_iff [of k xs]
    by (simp add: set_list_sort)
next
  case (Some e)
  then have "e \<in> set (list_sort cmp xs)" and k: "m_key e = k"
    using find_entry_SomeD [of k xs e] by (simp_all add: set_list_sort)
  moreover have "distinct (map m_key (list_sort cmp xs))"
    using assms by (simp add: distinct_map_list_sort)
  ultimately have "find_entry (m_key e) (list_sort cmp xs) = Some e"
    by (rule_tac find_entry_distinct)
  with Some k show ?thesis by simp
qed

lemma length_update_entry: "length (update_entry k f xs) = length xs"
  by (induction xs) auto

lemma map_key_update_entry:
  "(\<And>e. m_key (f e) = m_key e) \<Longrightarrow> map m_key (update_entry k f xs) = map m_key xs"
  by (induction xs) auto

lemma update_entry_twice:
  "(\<And>e. m_key (f e) = m_key e) \<Longrightarrow>
    update_entry k g (update_entry k f xs) = update_entry k (g \<circ> f) xs"
  by (induction xs) auto

lemma set_update_entry_subset:
  "set (update_entry k f xs) \<subseteq> set xs \<union> f ` set xs"
  by (induction xs) auto

lemma find_entry_update_entry:
  "(\<And>e. m_key (f e) = m_key e) \<Longrightarrow>
    find_entry k' (update_entry k f xs) =
      (if k' = k then map_option f (find_entry k xs) else find_entry k' xs)"
  by (induction xs) auto

lemma update_entry_absent: "k \<notin> m_key ` set xs \<Longrightarrow> update_entry k f xs = xs"
  by (induction xs) auto

lemma set_erase_entry_subset: "set (erase_entry k xs) \<subseteq> set xs"
  by (induction xs) auto

lemma keys_erase_entry:
  "distinct (map m_key xs) \<Longrightarrow> m_key ` set (erase_entry k xs) = m_key ` set xs - {k}"
  by (induction xs) (auto intro: rev_image_eqI)

lemma distinct_erase_entry:
  "distinct (map m_key xs) \<Longrightarrow> distinct (map m_key (erase_entry k xs))"
  using set_erase_entry_subset [of k]
  by (induction xs) auto

lemma length_erase_entry:
  "k \<in> m_key ` set xs \<Longrightarrow> Suc (length (erase_entry k xs)) = length xs"
  by (induction xs) auto

lemma erase_entry_absent: "k \<notin> m_key ` set xs \<Longrightarrow> erase_entry k xs = xs"
  by (induction xs) auto

subsection \<open>Entries\<close>

lemma key_push_time [simp]: "m_key (push_time now e) = m_key e"
  by (simp add: push_time_def)

lemma key_pop_time [simp]: "m_key (pop_time e) = m_key e"
  by (simp add: pop_time_def)

lemma value_push_time [simp]: "m_value (push_time now e) = m_value e"
  by (simp add: push_time_def)

lemma value_pop_time [simp]: "m_value (pop_time e) = m_value e"
  by (simp add: pop_time_def)

lemma access_push_time [simp]: "m_access_time (push_time now e) = m_access_time e @ [now]"
  by (simp add: push_time_def)

lemma access_pop_time [simp]: "m_access_time (pop_time e) = tl (m_access_time e)"
  by (simp add: pop_time_def)

subsection \<open>The lookup routines, case by case\<close>

lemma getFromCacheList_miss:
  "k \<notin> m_cache_map s \<Longrightarrow> getFromCacheList s now k = Some (CacheEnd, s)"
  by (simp add: getFromCacheList_def)

lemma getFromCacheList_hit:
  assumes w: "windows_ok s" and i: "index_ok s" and k: "k \<in> m_cache_map s"
  shows "getFromCacheList s now k =
    Some (CacheNode, s\<lparr>m_cacheList := list_sort compareByAccessTime
      (update_entry k (pop_time \<circ> push_time now) (m_cacheList s))\<rparr>)"
proof -
  from i k have "k \<in> m_key ` set (m_cacheList s)" by (simp add: index_ok_def)
  then obtain e where e: "find_entry k (m_cacheList s) = Some e"
    using find_entry_None_iff [of k "m_cacheList s"] by (cases "find_entry k (m_cacheList s)") auto
  then have "e \<in> set (m_cacheList s)" using find_entry_SomeD by fastforce
  with w have "length (m_access_time e) = window (m_k s)" by (simp add: windows_ok_def)
  then have big: "to_size_t (m_k s) < length (m_access_time (push_time now e))"
    by (simp add: window_def)
  let ?cl = "update_entry k (pop_time \<circ> push_time now) (m_cacheList s)"
  have "distinct (map m_key ?cl)"
    using i by (simp add: index_ok_def map_key_update_entry)
  then have "find_entry k (list_sort compareByAccessTime ?cl) = find_entry k ?cl"
    by (rule find_entry_list_sort)
  also have "\<dots> = Some ((pop_time \<circ> push_time now) e)"
    using e by (simp add: find_entry_update_entry)
  finally have ret: "find_entry k (list_sort compareByAccessTime ?cl) = Some (pop_time (push_time now e))"
    by simp
  have cm: "insert k (m_cache_map s - {k}) = m_cache_map s" using k by auto
  show ?thesis
    using k e big ret cm
    by (simp add: getFromCacheList_def Let_def findCacheEntry_def update_entry_twice)
qed

lemma key_promoted [simp]: "m_key (promoted kk now e) = m_key e"
  by (simp add: promoted_def)

lemma value_promoted [simp]: "m_value (promoted kk now e) = m_value e"
  by (simp add: promoted_def)

lemma getFromHistoryList_miss:
  "k \<notin> m_history_map s \<Longrightarrow> getFromHistoryList s now k = Some (HistoryEnd, s)"
  by (simp add: getFromHistoryList_def)

lemma getFromHistoryList_stay:
  assumes "k \<in> m_history_map s" and "find_entry k (m_historyList s) = Some e0"
    and "length (m_access_time e0) + 1 < to_size_t (m_k s)"
  shows "getFromHistoryList s now k =
    Some (HistoryNode, s\<lparr>m_historyList := push_time now e0 # erase_entry k (m_historyList s)\<rparr>)"
  using assms by (simp add: getFromHistoryList_def Let_def)

lemma find_entry_sorted_snoc:
  "m_key e = k \<Longrightarrow> find_entry k (list_sort cmp (xs @ [e])) \<noteq> None"
  by (simp add: find_entry_None_iff set_list_sort)

lemma getFromHistoryList_promote_free:
  assumes "k \<in> m_history_map s" and e0: "find_entry k (m_historyList s) = Some e0"
    and "to_size_t (m_k s) \<le> length (m_access_time e0) + 1"
    and "length (m_cacheList s) < to_size_t (m_capacity s)"
  shows "getFromHistoryList s now k =
    Some (CacheNode,
      s\<lparr>m_cacheList := list_sort compareByAccessTime (m_cacheList s @ [promoted (m_k s) now e0]),
        m_history_map := m_history_map s - {k},
        m_historyList := erase_entry k (m_historyList s),
        m_cache_map := insert k (m_cache_map s)\<rparr>)"
proof -
  have key: "m_key e0 = k" using e0 find_entry_SomeD by fastforce
  then have "find_entry k (list_sort compareByAccessTime
      (m_cacheList s @ [promoted (m_k s) now e0])) \<noteq> None"
    by (intro find_entry_sorted_snoc) simp
  then obtain e' where "find_entry k (list_sort compareByAccessTime
      (m_cacheList s @ [promoted (m_k s) now e0])) = Some e'" by auto
  with assms key show ?thesis
    by (simp add: getFromHistoryList_def Let_def findCacheEntry_def promoted_def)
qed

lemma getFromHistoryList_promote_full:
  assumes "k \<in> m_history_map s" and e0: "find_entry k (m_historyList s) = Some e0"
    and "to_size_t (m_k s) \<le> length (m_access_time e0) + 1"
    and "\<not> length (m_cacheList s) < to_size_t (m_capacity s)"
    and "m_cacheList s \<noteq> []"
  shows "getFromHistoryList s now k =
    Some (CacheNode,
      s\<lparr>m_cacheList := list_sort compareByAccessTime
            (butlast (m_cacheList s) @ [promoted (m_k s) now e0]),
        m_history_map := insert (m_key (last (m_cacheList s))) (m_history_map s) - {k},
        m_historyList := last (m_cacheList s) # erase_entry k (m_historyList s),
        m_cache_map := insert k (m_cache_map s - {m_key (last (m_cacheList s))})\<rparr>)"
proof -
  have key: "m_key e0 = k" using e0 find_entry_SomeD by fastforce
  then have "find_entry k (list_sort compareByAccessTime
      (butlast (m_cacheList s) @ [promoted (m_k s) now e0])) \<noteq> None"
    by (intro find_entry_sorted_snoc) simp
  then obtain e' where "find_entry k (list_sort compareByAccessTime
      (butlast (m_cacheList s) @ [promoted (m_k s) now e0])) = Some e'" by auto
  with assms key show ?thesis
    by (simp add: getFromHistoryList_def Let_def findCacheEntry_def promoted_def
        findVictimFromCache_def)
qed

lemma getFromHistoryList_full_empty:
  assumes "k \<in> m_history_map s" and e0: "find_entry k (m_historyList s) = Some e0"
    and "to_size_t (m_k s) \<le> length (m_access_time e0) + 1"
    and "\<not> length (m_cacheList s) < to_size_t (m_capacity s)"
    and "m_cacheList s = []"
  shows "getFromHistoryList s now k = None"
  using assms by (simp add: getFromHistoryList_def Let_def findVictimFromCache_def)

subsection \<open>The invariant and the states that keep it\<close>

lemma window_ge: "to_size_t kk \<le> window kk" and window_pos: "1 \<le> window kk"
  by (simp_all add: window_def)

lemma length_promoted:
  assumes "1 \<le> length (m_access_time e)" and "length (m_access_time e) \<le> window kk"
    and "to_size_t kk \<le> length (m_access_time e) + 1"
  shows "length (m_access_time (promoted kk now e)) = window kk"
  using assms by (auto simp: promoted_def window_def max_def)

lemma inv_init: "cache_inv (LRUK_Cache_init c k)"
  by (simp add: cache_inv_def windows_ok_def index_ok_def sizes_ok_def newer_first_def
      LRUK_Cache_init_def)

lemma inv_clear: "cache_inv s \<Longrightarrow> cache_inv (clear s)"
  by (simp add: cache_inv_def windows_ok_def index_ok_def sizes_ok_def newer_first_def clear_def)

lemma inv_hot_touch:
  assumes "cache_inv s"
  shows "cache_inv (s\<lparr>m_cacheList := list_sort compareByAccessTime
      (update_entry k (pop_time \<circ> push_time now) (m_cacheList s))\<rparr>)"
proof -
  let ?f = "pop_time \<circ> push_time now"
  let ?cl = "update_entry k ?f (m_cacheList s)"
  have keys: "map m_key ?cl = map m_key (m_cacheList s)"
    by (simp add: map_key_update_entry)
  then have kset: "m_key ` set ?cl = m_key ` set (m_cacheList s)"
    by (metis list.set_map)
  have len: "\<And>e. length (m_access_time (?f e)) = length (m_access_time e)"
    by simp
  have w: "windows_ok (s\<lparr>m_cacheList := list_sort compareByAccessTime ?cl\<rparr>)"
  proof -
    have "\<forall>e \<in> set ?cl. length (m_access_time e) = window (m_k s)"
    proof
      fix e assume "e \<in> set ?cl"
      then have "e \<in> set (m_cacheList s) \<union> ?f ` set (m_cacheList s)"
        using set_update_entry_subset [of k ?f "m_cacheList s"] by blast
      then consider "e \<in> set (m_cacheList s)"
        | x where "x \<in> set (m_cacheList s)" and "e = ?f x" by blast
      then show "length (m_access_time e) = window (m_k s)"
      proof cases
        case 1
        with assms show ?thesis by (simp add: cache_inv_def windows_ok_def)
      next
        case 2
        from 2(1) assms have "length (m_access_time x) = window (m_k s)"
          by (simp add: cache_inv_def windows_ok_def)
        with 2(2) show ?thesis by simp
      qed
    qed
    with assms show ?thesis
      by (simp add: cache_inv_def windows_ok_def set_list_sort)
  qed
  have i: "index_ok (s\<lparr>m_cacheList := list_sort compareByAccessTime ?cl\<rparr>)"
    using assms keys kset
    by (simp add: cache_inv_def index_ok_def distinct_map_list_sort set_list_sort)
  have z: "sizes_ok (s\<lparr>m_cacheList := list_sort compareByAccessTime ?cl\<rparr>)"
    using assms by (simp add: cache_inv_def sizes_ok_def length_list_sort length_update_entry)
  show ?thesis
    using w i z by (simp add: cache_inv_def newer_first_list_sort)
qed

lemma inv_stay:
  assumes "cache_inv s" and e0: "find_entry k (m_historyList s) = Some e0"
    and small: "length (m_access_time e0) + 1 < to_size_t (m_k s)"
  shows "cache_inv (s\<lparr>m_historyList := push_time now e0 # erase_entry k (m_historyList s)\<rparr>)"
proof -
  let ?hl = "push_time now e0 # erase_entry k (m_historyList s)"
  have mem: "e0 \<in> set (m_historyList s)" and key: "m_key e0 = k"
    using e0 find_entry_SomeD by fastforce+
  have d: "distinct (map m_key (m_historyList s))"
    using assms by (simp add: cache_inv_def index_ok_def)
  have kin: "k \<in> m_key ` set (m_historyList s)" using mem key by auto
  have w: "windows_ok (s\<lparr>m_historyList := ?hl\<rparr>)"
  proof -
    have "length (m_access_time (push_time now e0)) \<le> window (m_k s)"
      using small window_ge [of "m_k s"] by simp
    moreover have "\<forall>e \<in> set (erase_entry k (m_historyList s)).
        1 \<le> length (m_access_time e) \<and> length (m_access_time e) \<le> window (m_k s)"
      using assms set_erase_entry_subset [of k "m_historyList s"]
      by (auto simp: cache_inv_def windows_ok_def)
    ultimately show ?thesis
      using assms by (simp add: cache_inv_def windows_ok_def)
  qed
  have i: "index_ok (s\<lparr>m_historyList := ?hl\<rparr>)"
    using assms key kin d
    by (auto simp: cache_inv_def index_ok_def keys_erase_entry distinct_erase_entry)
  have z: "sizes_ok (s\<lparr>m_historyList := ?hl\<rparr>)"
    using assms length_erase_entry [OF kin] by (simp add: cache_inv_def sizes_ok_def)
  show ?thesis
    using assms w i z by (simp add: cache_inv_def)
qed

lemma inv_promote_free:
  assumes "cache_inv s" and e0: "find_entry k (m_historyList s) = Some e0"
    and big: "to_size_t (m_k s) \<le> length (m_access_time e0) + 1"
    and free: "length (m_cacheList s) < to_size_t (m_capacity s)"
  shows "cache_inv (s\<lparr>m_cacheList := list_sort compareByAccessTime (m_cacheList s @ [promoted (m_k s) now e0]),
        m_history_map := m_history_map s - {k},
        m_historyList := erase_entry k (m_historyList s),
        m_cache_map := insert k (m_cache_map s)\<rparr>)" (is "cache_inv ?s'")
proof -
  have mem: "e0 \<in> set (m_historyList s)" and key: "m_key e0 = k"
    using e0 find_entry_SomeD by fastforce+
  have d: "distinct (map m_key (m_historyList s))"
    and dc: "distinct (map m_key (m_cacheList s))"
    and disj: "m_key ` set (m_historyList s) \<inter> m_key ` set (m_cacheList s) = {}"
    and hm: "m_history_map s = m_key ` set (m_historyList s)"
    and cm: "m_cache_map s = m_key ` set (m_cacheList s)"
    using assms by (simp_all add: cache_inv_def index_ok_def)
  have kin: "k \<in> m_key ` set (m_historyList s)" using mem key by auto
  with disj have kout: "k \<notin> m_key ` set (m_cacheList s)" by blast
  have wh: "\<forall>e \<in> set (m_historyList s).
        1 \<le> length (m_access_time e) \<and> length (m_access_time e) \<le> window (m_k s)"
    and wc: "\<forall>e \<in> set (m_cacheList s). length (m_access_time e) = window (m_k s)"
    using assms by (simp_all add: cache_inv_def windows_ok_def)
  have lp: "length (m_access_time (promoted (m_k s) now e0)) = window (m_k s)"
    using wh mem big by (intro length_promoted) auto
  have w: "windows_ok ?s'"
    using wh wc lp set_erase_entry_subset [of k "m_historyList s"]
    by (auto simp: windows_ok_def set_list_sort)
  have i1: "distinct (map m_key (m_historyList ?s'))"
    using d by (simp add: distinct_erase_entry)
  have i2: "distinct (map m_key (m_cacheList ?s'))"
    using dc kout key by (simp add: distinct_map_list_sort)
  have i3: "m_history_map ?s' = m_key ` set (m_historyList ?s')"
    using d hm by (simp add: keys_erase_entry)
  have i4: "m_cache_map ?s' = m_key ` set (m_cacheList ?s')"
    using cm key by (simp add: set_list_sort)
  have i5: "m_key ` set (m_historyList ?s') \<inter> m_key ` set (m_cacheList ?s') = {}"
    using d disj key by (auto simp: keys_erase_entry set_list_sort)
  have i: "index_ok ?s'"
    unfolding index_ok_def using i1 i2 i3 i4 i5 by blast
  have z: "sizes_ok ?s'"
    using assms free length_erase_entry [OF kin]
    by (simp add: cache_inv_def sizes_ok_def length_list_sort)
  have n: "newer_first (m_cacheList ?s')"
    by (simp add: newer_first_list_sort)
  show ?thesis
    unfolding cache_inv_def using w i z n by blast
qed

lemma keys_butlast:
  "xs \<noteq> [] \<Longrightarrow> distinct (map m_key xs) \<Longrightarrow>
    m_key ` set (butlast xs) = m_key ` set xs - {m_key (last xs)}"
proof -
  assume ne: "xs \<noteq> []" and d: "distinct (map m_key xs)"
  from ne have xs: "xs = butlast xs @ [last xs]" by simp
  from d have "distinct (map m_key (butlast xs @ [last xs]))"
    using xs by simp
  then have "m_key (last xs) \<notin> m_key ` set (butlast xs)" by simp
  moreover have "m_key ` set xs = insert (m_key (last xs)) (m_key ` set (butlast xs))"
    using arg_cong [OF xs, of "\<lambda>l. m_key ` set l"] by simp
  ultimately show ?thesis by blast
qed

lemma inv_promote_full:
  assumes "cache_inv s" and e0: "find_entry k (m_historyList s) = Some e0"
    and big: "to_size_t (m_k s) \<le> length (m_access_time e0) + 1"
    and ne: "m_cacheList s \<noteq> []"
  shows "cache_inv (s\<lparr>m_cacheList := list_sort compareByAccessTime
            (butlast (m_cacheList s) @ [promoted (m_k s) now e0]),
        m_history_map := insert (m_key (last (m_cacheList s))) (m_history_map s) - {k},
        m_historyList := last (m_cacheList s) # erase_entry k (m_historyList s),
        m_cache_map := insert k (m_cache_map s - {m_key (last (m_cacheList s))})\<rparr>)"
    (is "cache_inv ?s'")
proof -
  let ?v = "last (m_cacheList s)"
  have mem: "e0 \<in> set (m_historyList s)" and key: "m_key e0 = k"
    using e0 find_entry_SomeD by fastforce+
  have d: "distinct (map m_key (m_historyList s))"
    and dc: "distinct (map m_key (m_cacheList s))"
    and disj: "m_key ` set (m_historyList s) \<inter> m_key ` set (m_cacheList s) = {}"
    and hm: "m_history_map s = m_key ` set (m_historyList s)"
    and cm: "m_cache_map s = m_key ` set (m_cacheList s)"
    using assms by (simp_all add: cache_inv_def index_ok_def)
  have kin: "k \<in> m_key ` set (m_historyList s)" using mem key by auto
  with disj have kout: "k \<notin> m_key ` set (m_cacheList s)" by blast
  have vin: "?v \<in> set (m_cacheList s)" using ne by simp
  then have vk: "m_key ?v \<in> m_key ` set (m_cacheList s)" by simp
  with disj have vout: "m_key ?v \<notin> m_key ` set (m_historyList s)" by blast
  have vneq: "m_key ?v \<noteq> k" using vk kout by auto
  have kb: "m_key ` set (butlast (m_cacheList s)) = m_key ` set (m_cacheList s) - {m_key ?v}"
    using ne dc by (rule keys_butlast)
  have db: "distinct (map m_key (butlast (m_cacheList s)))"
    using distinct_butlast [OF dc] by (simp only: map_butlast)
  have wh: "\<forall>e \<in> set (m_historyList s).
        1 \<le> length (m_access_time e) \<and> length (m_access_time e) \<le> window (m_k s)"
    and wc: "\<forall>e \<in> set (m_cacheList s). length (m_access_time e) = window (m_k s)"
    using assms by (simp_all add: cache_inv_def windows_ok_def)
  have lp: "length (m_access_time (promoted (m_k s) now e0)) = window (m_k s)"
    using wh mem big by (intro length_promoted) auto
  have lv: "length (m_access_time ?v) = window (m_k s)" using wc vin by blast
  have w: "windows_ok ?s'"
    using wh wc lp lv set_erase_entry_subset [of k "m_historyList s"]
      in_set_butlastD [of _ "m_cacheList s"] window_pos [of "m_k s"]
    by (auto simp: windows_ok_def set_list_sort)
  have i1: "distinct (map m_key (m_historyList ?s'))"
    using d vout by (simp add: distinct_erase_entry keys_erase_entry)
  have i2: "distinct (map m_key (m_cacheList ?s'))"
    using db kb kout key by (simp add: distinct_map_list_sort)
  have i3: "m_history_map ?s' = m_key ` set (m_historyList ?s')"
    using d hm vneq by (auto simp: keys_erase_entry)
  have i4: "m_cache_map ?s' = m_key ` set (m_cacheList ?s')"
    using cm key kb by (simp add: set_list_sort)
  have i5: "m_key ` set (m_historyList ?s') \<inter> m_key ` set (m_cacheList ?s') = {}"
    using d disj key kb vneq by (auto simp: keys_erase_entry set_list_sort)
  have i: "index_ok ?s'"
    unfolding index_ok_def using i1 i2 i3 i4 i5 by blast
  have "length (m_cacheList s) = Suc (length (butlast (m_cacheList s)))"
    using ne by simp
  then have z: "sizes_ok ?s'"
    using assms length_erase_entry [OF kin]
    by (simp add: cache_inv_def sizes_ok_def length_list_sort)
  have n: "newer_first (m_cacheList ?s')"
    by (simp add: newer_first_list_sort)
  show ?thesis
    unfolding cache_inv_def using w i z n by blast
qed

lemma inv_put_new_free:
  assumes "cache_inv s" and kh: "k \<notin> m_history_map s" and kc: "k \<notin> m_cache_map s"
    and free: "length (m_historyList s) < to_size_t (m_capacity s)"
  shows "cache_inv (s\<lparr>m_historyList := push_time now (CacheEntry_new k v) # m_historyList s,
        m_history_map := insert k (m_history_map s)\<rparr>)" (is "cache_inv ?s'")
proof -
  have w: "windows_ok ?s'"
    using assms window_pos [of "m_k s"]
    by (simp add: cache_inv_def windows_ok_def CacheEntry_new_def)
  have i: "index_ok ?s'"
    using assms by (auto simp: cache_inv_def index_ok_def CacheEntry_new_def)
  have z: "sizes_ok ?s'"
    using assms by (simp add: cache_inv_def sizes_ok_def)
  show ?thesis
    unfolding cache_inv_def using assms w i z by (simp add: cache_inv_def)
qed

lemma inv_put_new_full:
  assumes "cache_inv s" and kh: "k \<notin> m_history_map s" and kc: "k \<notin> m_cache_map s"
    and ne: "m_historyList s \<noteq> []"
  shows "cache_inv (s\<lparr>m_historyList := push_time now (CacheEntry_new k v) # butlast (m_historyList s),
        m_history_map := insert k (m_history_map s - {m_key (last (m_historyList s))})\<rparr>)"
    (is "cache_inv ?s'")
proof -
  have d: "distinct (map m_key (m_historyList s))"
    and disj: "m_key ` set (m_historyList s) \<inter> m_key ` set (m_cacheList s) = {}"
    and hm: "m_history_map s = m_key ` set (m_historyList s)"
    and cm: "m_cache_map s = m_key ` set (m_cacheList s)"
    using assms by (simp_all add: cache_inv_def index_ok_def)
  have kb: "m_key ` set (butlast (m_historyList s)) =
      m_key ` set (m_historyList s) - {m_key (last (m_historyList s))}"
    using ne d by (rule keys_butlast)
  have db: "distinct (map m_key (butlast (m_historyList s)))"
    using distinct_butlast [OF d] by (simp only: map_butlast)
  have w: "windows_ok ?s'"
    using assms window_pos [of "m_k s"] in_set_butlastD [of _ "m_historyList s"]
    by (auto simp: cache_inv_def windows_ok_def CacheEntry_new_def)
  have i1: "distinct (map m_key (m_historyList ?s'))"
    using db kb kh hm by (simp add: CacheEntry_new_def)
  have i3: "m_history_map ?s' = m_key ` set (m_historyList ?s')"
    using hm kb by (simp add: CacheEntry_new_def)
  have i5: "m_key ` set (m_historyList ?s') \<inter> m_key ` set (m_cacheList ?s') = {}"
    using disj kb kc cm by (auto simp: CacheEntry_new_def)
  have i: "index_ok ?s'"
    unfolding index_ok_def using i1 i3 i5 assms by (simp add: cache_inv_def index_ok_def)
  have "length (m_historyList s) = Suc (length (butlast (m_historyList s)))"
    using ne by simp
  then have z: "sizes_ok ?s'"
    using assms by (simp add: cache_inv_def sizes_ok_def)
  show ?thesis
    unfolding cache_inv_def using assms w i z by (simp add: cache_inv_def)
qed

lemma newer_first_update_entry:
  assumes "\<And>e. m_access_time (f e) = m_access_time e"
  shows "newer_first (update_entry k f xs) = newer_first xs"
proof -
  have "map front_time (update_entry k f xs) = map front_time xs"
    using assms by (induction xs) (auto simp: front_time_def)
  then have "sorted_wrt (\<lambda>a b. b \<le> a) (map front_time (update_entry k f xs)) =
      sorted_wrt (\<lambda>a b. b \<le> a) (map front_time xs)" by simp
  then show ?thesis
    by (simp add: newer_first_def sorted_wrt_map)
qed

lemma access_times_update_entry:
  assumes "\<And>e. m_access_time (f e) = m_access_time e"
  shows "m_access_time ` set (update_entry k f xs) = m_access_time ` set xs"
proof -
  have "map m_access_time (update_entry k f xs) = map m_access_time xs"
    using assms by (induction xs) auto
  then show ?thesis by (metis list.set_map)
qed

lemma keys_update_entry:
  "(\<And>e. m_key (f e) = m_key e) \<Longrightarrow> m_key ` set (update_entry k f xs) = m_key ` set xs"
  using map_key_update_entry [of f k xs] by (metis list.set_map)

lemma inv_assign_cache:
  assumes "cache_inv s"
  shows "cache_inv (s\<lparr>m_cacheList := update_entry k (\<lambda>e. e\<lparr>m_value := v\<rparr>) (m_cacheList s)\<rparr>)"
    (is "cache_inv ?s'")
proof -
  let ?f = "\<lambda>e::('a, 'b) CacheEntry. e\<lparr>m_value := v\<rparr>"
  have a: "m_access_time ` set (update_entry k ?f (m_cacheList s)) =
      m_access_time ` set (m_cacheList s)"
    by (rule access_times_update_entry) simp
  have "\<forall>e \<in> set (m_cacheList s). length (m_access_time e) = window (m_k s)"
    using assms by (simp add: cache_inv_def windows_ok_def)
  then have "\<forall>q \<in> m_access_time ` set (m_cacheList s). length q = window (m_k s)"
    by blast
  then have "\<forall>q \<in> m_access_time ` set (update_entry k ?f (m_cacheList s)).
      length q = window (m_k s)"
    by (simp only: a)
  then have w: "windows_ok ?s'"
    using assms by (simp add: cache_inv_def windows_ok_def)
  have i: "index_ok ?s'"
    using assms by (simp add: cache_inv_def index_ok_def map_key_update_entry keys_update_entry)
  have z: "sizes_ok ?s'"
    using assms by (simp add: cache_inv_def sizes_ok_def length_update_entry)
  have n: "newer_first (m_cacheList ?s')"
    using assms by (simp add: cache_inv_def newer_first_update_entry)
  show ?thesis
    unfolding cache_inv_def using w i z n by blast
qed

lemma inv_assign_history:
  assumes "cache_inv s"
  shows "cache_inv (s\<lparr>m_historyList := update_entry k (\<lambda>e. e\<lparr>m_value := v\<rparr>) (m_historyList s)\<rparr>)"
    (is "cache_inv ?s'")
proof -
  let ?f = "\<lambda>e::('a, 'b) CacheEntry. e\<lparr>m_value := v\<rparr>"
  have a: "m_access_time ` set (update_entry k ?f (m_historyList s)) =
      m_access_time ` set (m_historyList s)"
    by (rule access_times_update_entry) simp
  have "\<forall>e \<in> set (m_historyList s).
      1 \<le> length (m_access_time e) \<and> length (m_access_time e) \<le> window (m_k s)"
    using assms by (simp add: cache_inv_def windows_ok_def)
  then have "\<forall>q \<in> m_access_time ` set (m_historyList s).
      1 \<le> length q \<and> length q \<le> window (m_k s)"
    by blast
  then have "\<forall>q \<in> m_access_time ` set (update_entry k ?f (m_historyList s)).
      1 \<le> length q \<and> length q \<le> window (m_k s)"
    by (simp only: a)
  then have w: "windows_ok ?s'"
    using assms by (simp add: cache_inv_def windows_ok_def)
  have i: "index_ok ?s'"
    using assms by (simp add: cache_inv_def index_ok_def map_key_update_entry keys_update_entry)
  have z: "sizes_ok ?s'"
    using assms by (simp add: cache_inv_def sizes_ok_def length_update_entry)
  show ?thesis
    unfolding cache_inv_def using assms w i z by (simp add: cache_inv_def)
qed

lemma inv_assign_value:
  "cache_inv s \<Longrightarrow> assign_value it k v s = Some s' \<Longrightarrow> cache_inv s'"
  by (cases it)
    (auto simp: assign_value_def inv_assign_cache inv_assign_history split: option.splits)

subsection \<open>Every operation keeps the invariant\<close>

lemma inv_getFromCacheList:
  assumes "cache_inv s" and r: "getFromCacheList s now k = Some (it, s')"
  shows "cache_inv s' \<and> (if k \<in> m_cache_map s then it = CacheNode else it = CacheEnd \<and> s' = s)"
proof (cases "k \<in> m_cache_map s")
  case True
  with assms getFromCacheList_hit [of s k now] inv_hot_touch [OF assms(1), of k now]
  show ?thesis by (simp add: cache_inv_def)
next
  case False
  with assms getFromCacheList_miss [of k s now] show ?thesis by simp
qed

lemma history_entry_exists:
  assumes "cache_inv s" and "k \<in> m_history_map s"
  obtains e0 where "find_entry k (m_historyList s) = Some e0"
proof -
  from assms have "k \<in> m_key ` set (m_historyList s)" by (simp add: cache_inv_def index_ok_def)
  then have "find_entry k (m_historyList s) \<noteq> None"
    by (simp add: find_entry_None_iff)
  then show ?thesis using that by auto
qed

lemma inv_getFromHistoryList:
  assumes "cache_inv s" and r: "getFromHistoryList s now k = Some (it, s')"
  shows "cache_inv s' \<and> (if k \<in> m_history_map s then it \<noteq> HistoryEnd else it = HistoryEnd \<and> s' = s)"
proof (cases "k \<in> m_history_map s")
  case False
  with assms getFromHistoryList_miss [of k s now] show ?thesis by simp
next
  case True
  with assms(1) obtain e0 where e0: "find_entry k (m_historyList s) = Some e0"
    by (rule history_entry_exists)
  show ?thesis
  proof (cases "to_size_t (m_k s) \<le> length (m_access_time e0) + 1")
    case False
    then have small: "length (m_access_time e0) + 1 < to_size_t (m_k s)" by simp
    from getFromHistoryList_stay [OF True e0 small, of now] r
      inv_stay [OF assms(1) e0 small, of now] True
    show ?thesis by auto
  next
    case big: True
    show ?thesis
    proof (cases "length (m_cacheList s) < to_size_t (m_capacity s)")
      case free: True
      from getFromHistoryList_promote_free [OF True e0 big free, of now] r
        inv_promote_free [OF assms(1) e0 big free, of now] True
      show ?thesis by auto
    next
      case full: False
      show ?thesis
      proof (cases "m_cacheList s = []")
        case True
        with getFromHistoryList_full_empty [OF \<open>k \<in> m_history_map s\<close> e0 big full, of now] r
        show ?thesis by simp
      next
        case ne: False
        from getFromHistoryList_promote_full [OF True e0 big full ne, of now] r
          inv_promote_full [OF assms(1) e0 big ne, of now] True
        show ?thesis by auto
      qed
    qed
  qed
qed

lemma inv_get:
  assumes "cache_inv s" and r: "get s now k = Some (res, s')"
  shows "cache_inv s'"
proof -
  from r obtain it1 s1 where c: "getFromCacheList s now k = Some (it1, s1)"
    by (auto simp: get_def split: option.splits)
  from inv_getFromCacheList [OF assms(1) c] have i1: "cache_inv s1" by simp
  show ?thesis
  proof (cases "it1 = CacheEnd")
    case False
    with r c have "s' = s1" by (auto simp: get_def split: option.splits)
    with i1 show ?thesis by simp
  next
    case True
    with r c obtain it2 s2 where h: "getFromHistoryList s1 now k = Some (it2, s2)"
      by (auto simp: get_def split: option.splits)
    from inv_getFromHistoryList [OF i1 h] have i2: "cache_inv s2" by simp
    from r c h True have "s' = s2" by (auto simp: get_def split: option.splits if_splits)
    with i2 show ?thesis by simp
  qed
qed

lemma inv_put:
  assumes "cache_inv s" and r: "put s now k v = Some s'"
  shows "cache_inv s'"
proof -
  from r obtain it1 s1 where c: "getFromCacheList s now k = Some (it1, s1)"
    by (auto simp: put_def split: option.splits)
  from inv_getFromCacheList [OF assms(1) c]
  have i1: "cache_inv s1" and c1: "if k \<in> m_cache_map s then it1 = CacheNode else it1 = CacheEnd \<and> s1 = s"
    by simp_all
  show ?thesis
  proof (cases "it1 = CacheEnd")
    case False
    with r c have "assign_value it1 k v s1 = Some s'" by (simp add: put_def)
    with i1 show ?thesis by (rule inv_assign_value)
  next
    case True
    with c1 have kc: "k \<notin> m_cache_map s" and s1: "s1 = s" by (auto split: if_splits)
    from r c True obtain it2 s2 where h: "getFromHistoryList s1 now k = Some (it2, s2)"
      by (auto simp: put_def split: option.splits)
    from inv_getFromHistoryList [OF i1 h]
    have i2: "cache_inv s2"
      and h1: "if k \<in> m_history_map s1 then it2 \<noteq> HistoryEnd else it2 = HistoryEnd \<and> s2 = s1"
      by simp_all
    show ?thesis
    proof (cases "it2 = HistoryEnd")
      case False
      with r c h True have "assign_value it2 k v s2 = Some s'" by (simp add: put_def)
      with i2 show ?thesis by (rule inv_assign_value)
    next
      case he: True
      with h1 s1 have kh: "k \<notin> m_history_map s" and s2: "s2 = s" by (auto split: if_splits)
      show ?thesis
      proof (cases "length (m_historyList s) < to_size_t (m_capacity s)")
        case free: True
        with r c h True he s2 have "s' = s\<lparr>m_historyList :=
            push_time now (CacheEntry_new k v) # m_historyList s,
            m_history_map := insert k (m_history_map s)\<rparr>"
          by (simp add: put_def)
        with inv_put_new_free [OF assms(1) kh kc free, of now v] show ?thesis by simp
      next
        case full: False
        with r c h True he s2 have ne: "m_historyList s \<noteq> []"
          by (auto simp: put_def findVictimFromHistory_def split: if_splits)
        with r c h True he s2 full have "s' = s\<lparr>m_historyList :=
            push_time now (CacheEntry_new k v) # butlast (m_historyList s),
            m_history_map := insert k (m_history_map s - {m_key (last (m_historyList s))})\<rparr>"
          by (simp add: put_def findVictimFromHistory_def Let_def)
        with inv_put_new_full [OF assms(1) kh kc ne, of now v] show ?thesis by simp
      qed
    qed
  qed
qed

lemma inv_reachable: "reachable c k s \<Longrightarrow> cache_inv s"
  by (induction rule: reachable.induct) (auto intro: inv_init inv_get inv_put inv_clear)

subsection \<open>The common beginning of \<open>get\<close> and \<open>put\<close>\<close>

lemma getFromCacheList_iterator:
  "getFromCacheList s now k = Some (it, s1) \<Longrightarrow> it = CacheEnd \<or> it = CacheNode"
  by (auto simp: getFromCacheList_def findCacheEntry_def Let_def split: if_splits option.splits)

lemma get_touch:
  "get s now k =
     (case touch s now k of
        None \<Rightarrow> None
      | Some (it, s1) \<Rightarrow>
          if it = HistoryEnd then Some (None, s1)
          else (case deref it k s1 of None \<Rightarrow> None | Some e \<Rightarrow> Some (Some (m_value e), s1)))"
proof (cases "getFromCacheList s now k")
  case None
  then show ?thesis by (simp add: get_def touch_def)
next
  case (Some r)
  obtain it s1 where r: "r = (it, s1)" by (cases r)
  with Some getFromCacheList_iterator [of s now k it s1]
  consider "it = CacheEnd" | "it = CacheNode" by auto
  then show ?thesis
  proof cases
    case 1
    with Some r show ?thesis
      by (auto simp: get_def touch_def split: option.splits)
  next
    case 2
    with Some r show ?thesis by (simp add: get_def touch_def)
  qed
qed

lemma put_touch:
  "put s now k v =
     (case touch s now k of
        None \<Rightarrow> None
      | Some (it, s1) \<Rightarrow>
          if it = HistoryEnd then
            (if length (m_historyList s1) < to_size_t (m_capacity s1) then
               Some (s1\<lparr>m_historyList := push_time now (CacheEntry_new k v) # m_historyList s1,
                       m_history_map := insert k (m_history_map s1)\<rparr>)
             else if m_historyList s1 = [] then None
             else Some (s1\<lparr>m_historyList :=
                         push_time now (CacheEntry_new k v) # butlast (m_historyList s1),
                       m_history_map :=
                         insert k (m_history_map s1 - {m_key (last (m_historyList s1))})\<rparr>))
          else assign_value it k v s1)"
proof (cases "getFromCacheList s now k")
  case None
  then show ?thesis by (simp add: put_def touch_def)
next
  case (Some r)
  obtain it s1 where r: "r = (it, s1)" by (cases r)
  with Some getFromCacheList_iterator [of s now k it s1]
  consider "it = CacheEnd" | "it = CacheNode" by auto
  then show ?thesis
  proof cases
    case 1
    with Some r show ?thesis
      by (auto simp: put_def touch_def findVictimFromHistory_def Let_def split: option.splits)
  next
    case 2
    with Some r show ?thesis by (simp add: put_def touch_def)
  qed
qed

lemma find_entry_present:
  "k \<in> m_key ` set xs \<Longrightarrow> \<exists>e. find_entry k xs = Some e"
  using find_entry_None_iff [of k xs] by (cases "find_entry k xs") auto

lemma touch_miss:
  "k \<notin> m_cache_map s \<Longrightarrow> k \<notin> m_history_map s \<Longrightarrow> touch s now k = Some (HistoryEnd, s)"
  by (simp add: touch_def getFromCacheList_miss getFromHistoryList_miss)

lemma touch_hot:
  assumes "cache_inv s" and "k \<in> m_cache_map s"
  shows "touch s now k = Some (CacheNode, s\<lparr>m_cacheList := list_sort compareByAccessTime
      (update_entry k (pop_time \<circ> push_time now) (m_cacheList s))\<rparr>)"
  using assms getFromCacheList_hit [of s k now] by (simp add: touch_def cache_inv_def)

lemma touch_history:
  "k \<notin> m_cache_map s \<Longrightarrow> touch s now k = getFromHistoryList s now k"
  by (simp add: touch_def getFromCacheList_miss)

lemma history_key_not_cached:
  "cache_inv s \<Longrightarrow> k \<in> m_history_map s \<Longrightarrow> k \<notin> m_cache_map s"
  by (auto simp: cache_inv_def index_ok_def)

lemma capacity_pos_if_history:
  assumes "cache_inv s" and "m_historyList s \<noteq> []"
  shows "0 < to_size_t (m_capacity s)"
proof -
  have "length (m_historyList s) \<le> to_size_t (m_capacity s)"
    using assms(1) by (simp add: cache_inv_def sizes_ok_def)
  moreover have "0 < length (m_historyList s)" using assms(2) by simp
  ultimately show ?thesis by linarith
qed

lemma full_cache_nonempty:
  assumes "cache_inv s" and "find_entry k (m_historyList s) = Some e0"
    and "\<not> length (m_cacheList s) < to_size_t (m_capacity s)"
  shows "m_cacheList s \<noteq> []"
proof -
  from assms(2) have "m_historyList s \<noteq> []" by auto
  with assms(1) have "0 < to_size_t (m_capacity s)" by (rule capacity_pos_if_history)
  with assms(3) show ?thesis by auto
qed

lemma inv_touch:
  assumes "cache_inv s" and "touch s now k = Some (it, s1)"
  shows "cache_inv s1"
proof (cases "k \<in> m_cache_map s")
  case True
  with assms touch_hot [OF assms(1) True, of now] inv_hot_touch [OF assms(1), of k now]
  show ?thesis by simp
next
  case False
  with assms touch_history [of k s now] inv_getFromHistoryList [of s now k it s1]
  show ?thesis by simp
qed

lemma assign_value_overwrite:
  assumes "cache_inv s" and "deref it k s = Some e"
  shows "assign_value it k v s = Some (overwrite k v s)"
proof -
  have disj: "m_key ` set (m_historyList s) \<inter> m_key ` set (m_cacheList s) = {}"
    using assms(1) by (simp add: cache_inv_def index_ok_def)
  from assms(2) consider "it = CacheNode" "find_entry k (m_cacheList s) = Some e"
    | "it = HistoryNode" "find_entry k (m_historyList s) = Some e"
    by (cases it) (auto simp: deref_def)
  then show ?thesis
  proof cases
    case 1
    then have "k \<in> m_key ` set (m_cacheList s)" using find_entry_SomeD by fastforce
    with disj have "k \<notin> m_key ` set (m_historyList s)" by blast
    then have "update_entry k (\<lambda>e. e\<lparr>m_value := v\<rparr>) (m_historyList s) = m_historyList s"
      by (rule update_entry_absent)
    with 1 show ?thesis by (simp add: assign_value_def overwrite_def)
  next
    case 2
    then have "k \<in> m_key ` set (m_historyList s)" using find_entry_SomeD by fastforce
    with disj have "k \<notin> m_key ` set (m_cacheList s)" by blast
    then have "update_entry k (\<lambda>e. e\<lparr>m_value := v\<rparr>) (m_cacheList s) = m_cacheList s"
      by (rule update_entry_absent)
    with 2 show ?thesis by (simp add: assign_value_def overwrite_def)
  qed
qed

lemma put_after_get:
  assumes "cache_inv s" and g: "get s now k = Some (Some old, s1)"
  shows "put s now k v = Some (overwrite k v s1)"
proof -
  from g obtain it where t: "touch s now k = Some (it, s1)" and ne: "it \<noteq> HistoryEnd"
    and "deref it k s1 \<noteq> None"
    by (auto simp: get_touch split: option.splits if_splits)
  then obtain e where d: "deref it k s1 = Some e" by auto
  from inv_touch [OF assms(1) t] have "cache_inv s1" .
  then have "assign_value it k v s1 = Some (overwrite k v s1)"
    using d by (rule assign_value_overwrite)
  with t ne show ?thesis by (simp add: put_touch)
qed

subsection \<open>The parameters never change; sequences of operations\<close>

lemma params_getFromCacheList:
  "getFromCacheList s now k = Some (it, s') \<Longrightarrow>
    m_capacity s' = m_capacity s \<and> m_k s' = m_k s"
  by (auto simp: getFromCacheList_def Let_def split: if_splits option.splits)

lemma params_getFromHistoryList:
  "getFromHistoryList s now k = Some (it, s') \<Longrightarrow>
    m_capacity s' = m_capacity s \<and> m_k s' = m_k s"
  by (auto simp: getFromHistoryList_def Let_def split: if_splits option.splits)

lemma params_touch:
  "touch s now k = Some (it, s') \<Longrightarrow> m_capacity s' = m_capacity s \<and> m_k s' = m_k s"
  using params_getFromCacheList [of s now k] params_getFromHistoryList [of _ now k it s']
  by (auto simp: touch_def split: option.splits if_splits)

lemma params_assign_value:
  "assign_value it k v s = Some s' \<Longrightarrow> m_capacity s' = m_capacity s \<and> m_k s' = m_k s"
  by (cases it) (auto simp: assign_value_def split: option.splits)

lemma params_get:
  "get s now k = Some (r, s') \<Longrightarrow> m_capacity s' = m_capacity s \<and> m_k s' = m_k s"
  using params_touch [of s now k _ s']
  by (auto simp: get_touch split: option.splits if_splits)

lemma params_put:
  "put s now k v = Some s' \<Longrightarrow> m_capacity s' = m_capacity s \<and> m_k s' = m_k s"
  using params_touch [of s now k] params_assign_value [of _ k v _ s']
  by (auto simp: put_touch split: option.splits if_splits)

lemma params_reachable: "reachable c k s \<Longrightarrow> m_capacity s = c \<and> m_k s = k"
proof (induction rule: reachable.induct)
  case reachable_init
  show ?case by (simp add: LRUK_Cache_init_def)
next
  case (reachable_get s now key r s')
  then show ?case using params_get [of s now key r s'] by simp
next
  case (reachable_put s now key v s')
  then show ?case using params_put [of s now key v s'] by simp
next
  case (reachable_clear s)
  then show ?case by (simp add: clear_def)
qed

lemma reachable_step: "reachable c k s \<Longrightarrow> step s x = Some s' \<Longrightarrow> reachable c k s'"
proof -
  assume r: "reachable c k s" and s: "step s x = Some s'"
  obtain now op where x: "x = (now, op)" by (cases x)
  show ?thesis
  proof (cases op)
    case (Get key)
    with s x obtain res where "get s now key = Some (res, s')"
      by (auto split: option.splits)
    with r show ?thesis by (rule reachable_get)
  next
    case (Put key v)
    with s x have "put s now key v = Some s'" by simp
    with r show ?thesis by (rule reachable_put)
  next
    case Clear
    with s x r show ?thesis by (auto intro: reachable_clear)
  qed
qed

lemma reachable_run: "reachable c k s \<Longrightarrow> run s xs = Some s' \<Longrightarrow> reachable c k s'"
proof (induction xs arbitrary: s)
  case Nil
  then show ?case by simp
next
  case (Cons x xs)
  from Cons.prems(2) obtain s1 where s1: "step s x = Some s1" and rest: "run s1 xs = Some s'"
    by (auto split: option.splits)
  from Cons.prems(1) s1 have "reachable c k s1" by (rule reachable_step)
  then show ?case using rest by (rule Cons.IH)
qed

text \<open>The equations that evaluate the operations on concrete states.\<close>

lemmas eval_defs = LRUK_Cache_init_def put_def get_def getFromCacheList_def
  getFromHistoryList_def to_size_t_def push_time_def pop_time_def CacheEntry_new_def Let_def
  findCacheEntry_def findVictimFromCache_def findVictimFromHistory_def list_sort_def
  compareByAccessTime_def front_time_def deref_def assign_value_def insert_Diff_if

lemma front_times_sorted:
  assumes "newer_first xs" and "i < j" and "j < length xs"
  shows "front_time (xs ! j) \<le> front_time (xs ! i)"
  using assms by (simp add: newer_first_def sorted_wrt_iff_nth_less)

subsection \<open>What \<open>get\<close> returns and leaves behind\<close>

lemma history_entry_indexed:
  assumes "cache_inv s" and "find_entry k (m_historyList s) = Some e0"
  shows "k \<in> m_history_map s" and "k \<notin> m_cache_map s" and "m_key e0 = k"
proof -
  from assms(2) have "e0 \<in> set (m_historyList s)" and key: "m_key e0 = k"
    using find_entry_SomeD by fastforce+
  then have "k \<in> m_key ` set (m_historyList s)" by auto
  with assms(1) show "k \<in> m_history_map s" by (simp add: cache_inv_def index_ok_def)
  with assms(1) show "k \<notin> m_cache_map s" by (rule history_key_not_cached)
  from key show "m_key e0 = k" .
qed

lemma touch_stay:
  assumes "cache_inv s" and e0: "find_entry k (m_historyList s) = Some e0"
    and small: "length (m_access_time e0) + 1 < to_size_t (m_k s)"
  shows "touch s now k =
    Some (HistoryNode, s\<lparr>m_historyList := push_time now e0 # erase_entry k (m_historyList s)\<rparr>)"
  using history_entry_indexed [OF assms(1) e0] getFromHistoryList_stay [OF _ e0 small, of now]
  by (simp add: touch_history)

lemma touch_promote:
  assumes "cache_inv s" and e0: "find_entry k (m_historyList s) = Some e0"
    and big: "to_size_t (m_k s) \<le> length (m_access_time e0) + 1"
  shows "touch s now k = Some (CacheNode, promote_state s now k e0)"
proof (cases "length (m_cacheList s) < to_size_t (m_capacity s)")
  case True
  with history_entry_indexed [OF assms(1) e0]
    getFromHistoryList_promote_free [OF _ e0 big True, of now]
  show ?thesis by (simp add: touch_history promote_state_def)
next
  case False
  with assms(1) e0 have "m_cacheList s \<noteq> []" by (rule_tac full_cache_nonempty)
  with False history_entry_indexed [OF assms(1) e0]
    getFromHistoryList_promote_full [OF _ e0 big False, of now]
  show ?thesis by (simp add: touch_history promote_state_def)
qed

lemma inv_promote_state:
  assumes "cache_inv s" and e0: "find_entry k (m_historyList s) = Some e0"
    and big: "to_size_t (m_k s) \<le> length (m_access_time e0) + 1"
  shows "cache_inv (promote_state s now k e0)"
  using inv_touch [OF assms(1) touch_promote [OF assms, of now]] .

lemma promoted_in_cache:
  "promoted (m_k s) now e0 \<in> set (m_cacheList (promote_state s now k e0))"
  by (simp add: promote_state_def set_list_sort)

lemma find_promoted:
  assumes "cache_inv s" and e0: "find_entry k (m_historyList s) = Some e0"
    and big: "to_size_t (m_k s) \<le> length (m_access_time e0) + 1"
  shows "find_entry k (m_cacheList (promote_state s now k e0)) = Some (promoted (m_k s) now e0)"
proof -
  have "distinct (map m_key (m_cacheList (promote_state s now k e0)))"
    using inv_promote_state [OF assms, of now] by (simp add: cache_inv_def index_ok_def)
  then have "find_entry (m_key (promoted (m_k s) now e0)) (m_cacheList (promote_state s now k e0))
      = Some (promoted (m_k s) now e0)"
    using promoted_in_cache by (rule find_entry_distinct)
  with history_entry_indexed(3) [OF assms(1) e0] show ?thesis by simp
qed

lemma get_hot:
  assumes "cache_inv s" and e: "find_entry k (m_cacheList s) = Some e"
  shows "get s now k =
    Some (Some (m_value e), s\<lparr>m_cacheList := list_sort compareByAccessTime
      (update_entry k (pop_time \<circ> push_time now) (m_cacheList s))\<rparr>)"
proof -
  let ?cl = "update_entry k (pop_time \<circ> push_time now) (m_cacheList s)"
  from e have "k \<in> m_key ` set (m_cacheList s)" using find_entry_SomeD by fastforce
  with assms(1) have k: "k \<in> m_cache_map s" by (simp add: cache_inv_def index_ok_def)
  have "distinct (map m_key ?cl)"
    using assms(1) by (simp add: cache_inv_def index_ok_def map_key_update_entry)
  then have "find_entry k (list_sort compareByAccessTime ?cl) = find_entry k ?cl"
    by (rule find_entry_list_sort)
  also have "\<dots> = Some ((pop_time \<circ> push_time now) e)"
    using e by (simp add: find_entry_update_entry)
  finally have "find_entry k (list_sort compareByAccessTime ?cl) =
      Some (pop_time (push_time now e))" by simp
  with touch_hot [OF assms(1) k, of now] show ?thesis
    by (simp add: get_touch deref_def)
qed

lemma get_stay:
  assumes "cache_inv s" and e0: "find_entry k (m_historyList s) = Some e0"
    and small: "length (m_access_time e0) + 1 < to_size_t (m_k s)"
  shows "get s now k =
    Some (Some (m_value e0),
      s\<lparr>m_historyList := push_time now e0 # erase_entry k (m_historyList s)\<rparr>)"
  using touch_stay [OF assms, of now] history_entry_indexed(3) [OF assms(1) e0]
  by (simp add: get_touch deref_def)

lemma get_promote:
  assumes "cache_inv s" and e0: "find_entry k (m_historyList s) = Some e0"
    and big: "to_size_t (m_k s) \<le> length (m_access_time e0) + 1"
  shows "get s now k = Some (Some (m_value e0), promote_state s now k e0)"
  using touch_promote [OF assms, of now] find_promoted [OF assms, of now]
  by (simp add: get_touch deref_def)

lemma get_miss:
  "k \<notin> m_cache_map s \<Longrightarrow> k \<notin> m_history_map s \<Longrightarrow> get s now k = Some (None, s)"
  by (simp add: get_touch touch_miss)

lemma get_resident:
  assumes "cache_inv s" and "resident k s"
  shows "\<exists>old s1. get s now k = Some (Some old, s1)"
proof (cases "k \<in> m_cache_map s")
  case True
  with assms(1) have "k \<in> m_key ` set (m_cacheList s)" by (simp add: cache_inv_def index_ok_def)
  then obtain e where "find_entry k (m_cacheList s) = Some e"
    using find_entry_present by fastforce
  with assms(1) show ?thesis using get_hot by fastforce
next
  case False
  with assms(2) have "k \<in> m_history_map s" by (simp add: resident_def)
  with assms(1) obtain e0 where e0: "find_entry k (m_historyList s) = Some e0"
    by (rule history_entry_exists)
  show ?thesis
  proof (cases "to_size_t (m_k s) \<le> length (m_access_time e0) + 1")
    case True
    with assms(1) e0 show ?thesis using get_promote by fastforce
  next
    case False
    then have "length (m_access_time e0) + 1 < to_size_t (m_k s)" by simp
    with assms(1) e0 show ?thesis using get_stay by fastforce
  qed
qed

subsection \<open>Promotion, demotion and the cache index\<close>

lemma last_is_stalest:
  assumes "newer_first xs" and "e \<in> set xs"
  shows "front_time (last xs) \<le> front_time e"
proof -
  from assms(2) have ne: "xs \<noteq> []" by auto
  then have xs: "xs = butlast xs @ [last xs]" by simp
  from assms(1) have "sorted_wrt (\<lambda>a b. front_time b \<le> front_time a) (butlast xs @ [last xs])"
    using xs by (simp add: newer_first_def)
  then have "\<forall>x \<in> set (butlast xs). front_time (last xs) \<le> front_time x"
    by (simp add: sorted_wrt_append)
  moreover from assms(2) xs have "e \<in> set (butlast xs) \<or> e = last xs"
    by (metis Un_iff insert_iff list.set(2) set_append empty_iff empty_set)
  ultimately show ?thesis by auto
qed

lemma set_update_entry_other:
  "e \<in> set xs \<Longrightarrow> m_key e \<noteq> k \<Longrightarrow> e \<in> set (update_entry k f xs)"
  by (induction xs) auto

lemma step_promote:
  assumes "cache_inv s" and e0: "find_entry key (m_historyList s) = Some e0"
    and big: "to_size_t (m_k s) \<le> length (m_access_time e0) + 1"
    and op: "op = Get key \<or> op = Put key v"
  shows "step s (now, op) = Some (promote_state s now key e0) \<or>
    step s (now, op) = Some (overwrite key v (promote_state s now key e0))"
proof -
  have g: "get s now key = Some (Some (m_value e0), promote_state s now key e0)"
    using assms(1) e0 big by (rule get_promote)
  with assms(1) have "put s now key v = Some (overwrite key v (promote_state s now key e0))"
    by (rule put_after_get)
  with g op show ?thesis by auto
qed

lemma overwrite_cached:
  assumes "cache_inv s1" and "key \<in> m_key ` set (m_cacheList s1)"
  shows "m_historyList (overwrite key v s1) = m_historyList s1"
    and "m_key ` set (m_cacheList (overwrite key v s1)) = m_key ` set (m_cacheList s1)"
    and "length (m_cacheList (overwrite key v s1)) = length (m_cacheList s1)"
    and "\<And>e. e \<in> set (m_cacheList s1) \<Longrightarrow> m_key e \<noteq> key \<Longrightarrow>
      e \<in> set (m_cacheList (overwrite key v s1))"
proof -
  from assms have "key \<notin> m_key ` set (m_historyList s1)"
    by (auto simp: cache_inv_def index_ok_def)
  then show "m_historyList (overwrite key v s1) = m_historyList s1"
    by (simp add: overwrite_def update_entry_absent)
  show "m_key ` set (m_cacheList (overwrite key v s1)) = m_key ` set (m_cacheList s1)"
    by (simp add: overwrite_def keys_update_entry)
  show "length (m_cacheList (overwrite key v s1)) = length (m_cacheList s1)"
    by (simp add: overwrite_def length_update_entry)
  show "\<And>e. e \<in> set (m_cacheList s1) \<Longrightarrow> m_key e \<noteq> key \<Longrightarrow>
      e \<in> set (m_cacheList (overwrite key v s1))"
    by (simp add: overwrite_def set_update_entry_other)
qed

lemma maps_assign_value:
  "assign_value it k v s = Some s' \<Longrightarrow>
    m_cache_map s' = m_cache_map s \<and> m_history_map s' = m_history_map s"
  by (cases it) (auto simp: assign_value_def split: option.splits)

lemma cache_map_get:
  "get s now k' = Some (r, s') \<Longrightarrow> \<exists>it. touch s now k' = Some (it, s')"
  by (auto simp: get_touch split: option.splits if_splits)

lemma cache_map_put:
  assumes "put s now k' v = Some s'"
  shows "\<exists>it s1. touch s now k' = Some (it, s1) \<and> m_cache_map s' = m_cache_map s1"
proof -
  from assms obtain it s1 where t: "touch s now k' = Some (it, s1)"
    by (auto simp: put_touch split: option.splits)
  from assms t maps_assign_value [of it k' v s1 s'] have "m_cache_map s' = m_cache_map s1"
    by (auto simp: put_touch split: if_splits)
  with t show ?thesis by blast
qed

lemma cache_map_touch:
  assumes "cache_inv s" and t: "touch s now k' = Some (it, s1)" and out: "key \<notin> m_cache_map s"
  shows "key \<in> m_cache_map s1 \<longleftrightarrow>
    key = k' \<and> (\<exists>e. find_entry k' (m_historyList s) = Some e \<and>
      to_size_t (m_k s) \<le> length (m_access_time e) + 1)"
proof (cases "k' \<in> m_cache_map s")
  case True
  with assms(1) have "k' \<in> m_key ` set (m_cacheList s)" by (simp add: cache_inv_def index_ok_def)
  with assms(1) have "k' \<notin> m_key ` set (m_historyList s)" by (auto simp: cache_inv_def index_ok_def)
  then have "find_entry k' (m_historyList s) = None" by (simp add: find_entry_None_iff)
  moreover from touch_hot [OF assms(1) True, of now] t have "m_cache_map s1 = m_cache_map s"
    by auto
  ultimately show ?thesis using out by simp
next
  case nc: False
  show ?thesis
  proof (cases "find_entry k' (m_historyList s)")
    case None
    then have "k' \<notin> m_key ` set (m_historyList s)" by (simp add: find_entry_None_iff)
    with assms(1) have "k' \<notin> m_history_map s" by (simp add: cache_inv_def index_ok_def)
    with nc t have "s1 = s" by (simp add: touch_miss)
    with None out show ?thesis by simp
  next
    case (Some e0)
    show ?thesis
    proof (cases "to_size_t (m_k s) \<le> length (m_access_time e0) + 1")
      case True
      from touch_promote [OF assms(1) Some True, of now] t
      have "s1 = promote_state s now k' e0" by simp
      then have "key \<in> m_cache_map s1 \<longleftrightarrow> key = k'"
        using out by (auto simp: promote_state_def)
      with Some True show ?thesis by simp
    next
      case False
      then have "length (m_access_time e0) + 1 < to_size_t (m_k s)" by simp
      from touch_stay [OF assms(1) Some this, of now] t
      have "m_cache_map s1 = m_cache_map s" by auto
      with Some False out show ?thesis by simp
    qed
  qed
qed

subsection \<open>A history entry along a sequence of operations\<close>

lemma cache_map_step:
  assumes "cache_inv s" and st: "step s (now, op) = Some s'" and out: "key \<notin> m_cache_map s"
  shows "key \<in> m_cache_map s' \<longleftrightarrow>
    op_key op = Some key \<and>
    (\<exists>e. find_entry key (m_historyList s) = Some e \<and>
      to_size_t (m_k s) \<le> length (m_access_time e) + 1)"
proof (cases op)
  case (Get k')
  with st obtain r where "get s now k' = Some (r, s')" by (auto split: option.splits)
  then obtain it where "touch s now k' = Some (it, s')" using cache_map_get by fastforce
  from cache_map_touch [OF assms(1) this out] Get show ?thesis by auto
next
  case (Put k' v)
  with st have "put s now k' v = Some s'" by simp
  then obtain it s1 where t: "touch s now k' = Some (it, s1)"
    and m: "m_cache_map s' = m_cache_map s1" using cache_map_put by fastforce
  from cache_map_touch [OF assms(1) t out] m Put show ?thesis by auto
next
  case Clear
  with st show ?thesis by (auto simp: clear_def)
qed

lemma inv_step: "cache_inv s \<Longrightarrow> step s x = Some s' \<Longrightarrow> cache_inv s'"
proof -
  assume i: "cache_inv s" and s: "step s x = Some s'"
  obtain now op where x: "x = (now, op)" by (cases x)
  show ?thesis
  proof (cases op)
    case (Get key)
    with s x obtain res where "get s now key = Some (res, s')"
      by (auto split: option.splits)
    with i show ?thesis by (rule inv_get)
  next
    case (Put key v)
    with s x have "put s now key v = Some s'" by simp
    with i show ?thesis by (rule inv_put)
  next
    case Clear
    with s x i show ?thesis by (auto intro: inv_clear)
  qed
qed

lemma params_step: "step s x = Some s' \<Longrightarrow> m_capacity s' = m_capacity s \<and> m_k s' = m_k s"
proof -
  assume s: "step s x = Some s'"
  obtain now op where x: "x = (now, op)" by (cases x)
  show ?thesis
  proof (cases op)
    case (Get key)
    with s x obtain res where "get s now key = Some (res, s')"
      by (auto split: option.splits)
    then show ?thesis by (rule params_get)
  next
    case (Put key v)
    with s x have "put s now key v = Some s'" by simp
    then show ?thesis by (rule params_put)
  next
    case Clear
    with s x show ?thesis by (auto simp: clear_def)
  qed
qed

lemma set_update_entry_cases:
  "(\<And>e. m_key (f e) = m_key e) \<Longrightarrow> x \<in> set (update_entry k f xs) \<Longrightarrow>
    m_key x = k \<or> x \<in> set xs"
  by (induction xs) (auto split: if_splits)

lemma history_after_touch:
  assumes "cache_inv s" and t: "touch s now k' = Some (it, s1)"
    and x: "x \<in> set (m_historyList s1)"
  shows "m_key x = k' \<or> x \<in> set (m_historyList s) \<or> x \<in> set (m_cacheList s)"
proof (cases "k' \<in> m_cache_map s")
  case True
  from touch_hot [OF assms(1) True, of now] t have "m_historyList s1 = m_historyList s" by auto
  with x show ?thesis by simp
next
  case nc: False
  show ?thesis
  proof (cases "find_entry k' (m_historyList s)")
    case None
    then have "k' \<notin> m_key ` set (m_historyList s)" by (simp add: find_entry_None_iff)
    with assms(1) have "k' \<notin> m_history_map s" by (simp add: cache_inv_def index_ok_def)
    with nc t have "s1 = s" by (simp add: touch_miss)
    with x show ?thesis by simp
  next
    case (Some e0)
    have sub: "set (erase_entry k' (m_historyList s)) \<subseteq> set (m_historyList s)"
      by (rule set_erase_entry_subset)
    have key: "m_key e0 = k'" using history_entry_indexed(3) [OF assms(1) Some] .
    show ?thesis
    proof (cases "to_size_t (m_k s) \<le> length (m_access_time e0) + 1")
      case True
      from touch_promote [OF assms(1) Some True, of now] t
      have s1: "s1 = promote_state s now k' e0" by simp
      show ?thesis
      proof (cases "length (m_cacheList s) < to_size_t (m_capacity s)")
        case free: True
        with s1 x sub show ?thesis by (auto simp: promote_state_def)
      next
        case full: False
        with assms(1) Some have "m_cacheList s \<noteq> []" by (rule_tac full_cache_nonempty)
        then have "last (m_cacheList s) \<in> set (m_cacheList s)" by simp
        with full s1 x sub show ?thesis by (auto simp: promote_state_def)
      qed
    next
      case False
      then have "length (m_access_time e0) + 1 < to_size_t (m_k s)" by simp
      from touch_stay [OF assms(1) Some this, of now] t
      have "m_historyList s1 = push_time now e0 # erase_entry k' (m_historyList s)" by auto
      with x sub key show ?thesis by auto
    qed
  qed
qed

lemma history_after_step:
  assumes "cache_inv s" and st: "step s (now, op) = Some s'" and k': "op_key op = Some k'"
    and x: "x \<in> set (m_historyList s')"
  shows "m_key x = k' \<or> x \<in> set (m_historyList s) \<or> x \<in> set (m_cacheList s)"
proof (cases op)
  case (Get k'')
  with k' have kk: "k'' = k'" by simp
  from st Get kk obtain r where "get s now k' = Some (r, s')" by (auto split: option.splits)
  then obtain it where "touch s now k' = Some (it, s')" using cache_map_get by fastforce
  from history_after_touch [OF assms(1) this x] show ?thesis .
next
  case (Put k'' v)
  with k' have kk: "k'' = k'" by simp
  from st Put kk have p: "put s now k' v = Some s'" by simp
  then obtain it s1 where t: "touch s now k' = Some (it, s1)"
    by (auto simp: put_touch split: option.splits)
  have base: "\<And>y. y \<in> set (m_historyList s1) \<Longrightarrow>
      m_key y = k' \<or> y \<in> set (m_historyList s) \<or> y \<in> set (m_cacheList s)"
    using history_after_touch [OF assms(1) t] .
  have "m_key x = k' \<or> x \<in> set (m_historyList s1)"
  proof (cases "it = HistoryEnd")
    case True
    with p t x in_set_butlastD [of x "m_historyList s1"] show ?thesis
      by (auto simp: put_touch CacheEntry_new_def split: if_splits)
  next
    case False
    with p t have a: "assign_value it k' v s1 = Some s'" by (simp add: put_touch)
    then consider "m_historyList s' = m_historyList s1"
      | "m_historyList s' = update_entry k' (\<lambda>e. e\<lparr>m_value := v\<rparr>) (m_historyList s1)"
      by (cases it) (auto simp: assign_value_def split: option.splits)
    then show ?thesis
    proof cases
      case 1
      with x show ?thesis by simp
    next
      case 2
      with x set_update_entry_cases [of "\<lambda>e. e\<lparr>m_value := v\<rparr>" x k' "m_historyList s1"]
      show ?thesis by auto
    qed
  qed
  with base show ?thesis by blast
next
  case Clear
  with k' show ?thesis by simp
qed

lemma history_entry_kept:
  assumes "cache_inv s" and e: "find_entry key (m_historyList s) = Some e"
    and st: "step s (now, op) = Some s'" and other: "op_key op \<noteq> Some key"
    and res: "resident key s'"
  shows "find_entry key (m_historyList s') = Some e"
proof -
  have i': "cache_inv s'" using assms(1) st by (rule inv_step)
  have out: "key \<notin> m_cache_map s" using history_entry_indexed(2) [OF assms(1) e] .
  from cache_map_step [OF assms(1) st out] other have "key \<notin> m_cache_map s'" by simp
  with res have "key \<in> m_history_map s'" by (simp add: resident_def)
  with i' obtain e' where e': "find_entry key (m_historyList s') = Some e'"
    by (rule history_entry_exists)
  then have mem: "e' \<in> set (m_historyList s')" and key: "m_key e' = key"
    using find_entry_SomeD by fastforce+
  from \<open>key \<in> m_history_map s'\<close> st obtain k' where k': "op_key op = Some k'"
    by (cases op) (auto simp: clear_def)
  with other have "k' \<noteq> key" by auto
  with history_after_step [OF assms(1) st k' mem] key
  have "e' \<in> set (m_historyList s) \<or> e' \<in> set (m_cacheList s)" by auto
  moreover have "e' \<notin> set (m_cacheList s)"
  proof
    assume "e' \<in> set (m_cacheList s)"
    with key have "key \<in> m_key ` set (m_cacheList s)" by auto
    with assms(1) out show False by (simp add: cache_inv_def index_ok_def)
  qed
  ultimately have "e' \<in> set (m_historyList s)" by simp
  moreover have "distinct (map m_key (m_historyList s))"
    using assms(1) by (simp add: cache_inv_def index_ok_def)
  ultimately have "find_entry (m_key e') (m_historyList s) = Some e'"
    by (rule_tac find_entry_distinct)
  with key e have "e' = e" by simp
  with e' show ?thesis by simp
qed

lemma history_entry_touched:
  assumes "cache_inv s" and e: "find_entry key (m_historyList s) = Some e"
    and st: "step s (now, op) = Some s'" and own: "op_key op = Some key"
    and small: "length (m_access_time e) + 1 < to_size_t (m_k s)"
  shows "\<exists>e'. find_entry key (m_historyList s') = Some e' \<and>
    length (m_access_time e') = length (m_access_time e) + 1"
proof -
  let ?st = "s\<lparr>m_historyList := push_time now e # erase_entry key (m_historyList s)\<rparr>"
  have key: "m_key e = key" using history_entry_indexed(3) [OF assms(1) e] .
  have g: "get s now key = Some (Some (m_value e), ?st)"
    using assms(1) e small by (rule get_stay)
  show ?thesis
  proof (cases op)
    case (Get k')
    with own st g have "s' = ?st" by simp
    with key show ?thesis by simp
  next
    case (Put k' v)
    with own st have "put s now key v = Some s'" by simp
    with put_after_get [OF assms(1) g, of v] have "s' = overwrite key v ?st" by simp
    with key show ?thesis by (simp add: overwrite_def)
  next
    case Clear
    with own show ?thesis by simp
  qed
qed

lemma trace_head: "trace s xs = s # tl (trace s xs)"
  by (cases xs) simp_all

lemma list_all_trace_head: "list_all P (trace s xs) \<Longrightarrow> P s"
  by (cases xs) simp_all

lemma list_all_trace_prefix: "list_all P (trace s (xs @ ys)) \<Longrightarrow> list_all P (trace s xs)"
proof (induction xs arbitrary: s)
  case Nil
  then show ?case using list_all_trace_head [of P s ys] by simp
next
  case (Cons x xs)
  then show ?case by (cases "step s x") auto
qed

lemma run_append:
  "run s (xs @ ys) = (case run s xs of None \<Rightarrow> None | Some s' \<Rightarrow> run s' ys)"
  by (induction xs arbitrary: s) (auto split: option.splits)

lemma accesses_Cons:
  "accesses key ((now, op) # ops) = (if op_key op = Some key then 1 else 0) + accesses key ops"
  by (simp add: accesses_def)

lemma accesses_snoc:
  "accesses key (ops @ [(now, op)]) = accesses key ops + (if op_key op = Some key then 1 else 0)"
  by (simp add: accesses_def)

lemma history_count:
  assumes "cache_inv s" and "find_entry key (m_historyList s) = Some e"
    and "run s ops = Some s'" and "list_all (resident key) (trace s ops)"
    and "length (m_access_time e) + accesses key ops < to_size_t (m_k s)"
  shows "\<exists>e'. find_entry key (m_historyList s') = Some e' \<and>
    length (m_access_time e') = length (m_access_time e) + accesses key ops"
  using assms
proof (induction ops arbitrary: s e)
  case Nil
  then show ?case by (simp add: accesses_def)
next
  case (Cons x ops)
  obtain now op where x: "x = (now, op)" by (cases x)
  from Cons.prems(3) obtain s1 where st: "step s x = Some s1" and rest: "run s1 ops = Some s'"
    by (auto split: option.splits)
  from Cons.prems(4) st have all1: "list_all (resident key) (trace s1 ops)" by simp
  then have res1: "resident key s1" by (rule list_all_trace_head)
  have i1: "cache_inv s1" using Cons.prems(1) st by (rule inv_step)
  have k1: "m_k s1 = m_k s" using params_step [OF st] by simp
  show ?case
  proof (cases "op_key op = Some key")
    case True
    with Cons.prems(5) x
    have small: "length (m_access_time e) + 1 < to_size_t (m_k s)"
      and bound: "(length (m_access_time e) + 1) + accesses key ops < to_size_t (m_k s)"
      by (simp_all add: accesses_Cons)
    from history_entry_touched [OF Cons.prems(1,2) st [unfolded x] True small]
    obtain e1 where e1: "find_entry key (m_historyList s1) = Some e1"
      and l1: "length (m_access_time e1) = length (m_access_time e) + 1" by blast
    from bound l1 k1
    have "length (m_access_time e1) + accesses key ops < to_size_t (m_k s1)" by simp
    from Cons.IH [OF i1 e1 rest all1 this] l1 True x show ?thesis
      by (simp add: accesses_Cons)
  next
    case False
    from history_entry_kept [OF Cons.prems(1,2) st [unfolded x] False res1]
    have e1: "find_entry key (m_historyList s1) = Some e" .
    from Cons.prems(5) False x k1
    have "length (m_access_time e) + accesses key ops < to_size_t (m_k s1)"
      by (simp add: accesses_Cons)
    from Cons.IH [OF i1 e1 rest all1 this] False x show ?thesis
      by (simp add: accesses_Cons)
  qed
qed

lemma put_fresh:
  assumes "\<not> resident key s" and "put s now key v = Some s0"
  shows "find_entry key (m_historyList s0) =
    Some \<lparr>m_key = key, m_value = v, m_access_time = [now]\<rparr>"
proof -
  from assms(1) have "touch s now key = Some (HistoryEnd, s)"
    by (simp add: resident_def touch_miss)
  with assms(2) show ?thesis
    by (auto simp: put_touch push_time_def CacheEntry_new_def split: if_splits)
qed

section \<open>The claims\<close>

subsection \<open>Claim C1\<close>

text \<open>
  C1, as stated: for a key present in a region, \<open>put(key, v)\<close> overwrites the stored value
  and changes nothing else: no reading is recorded and no promotion happens. With
  capacity 3 and \<open>K = 2\<close>, after \<open>put(1, A)\<close> the call \<open>put(1, B)\<close> records a second reading
  and moves key 1 from the history list to the cache list; the state it leaves is not
  the previous state with the value overwritten.
\<close>

theorem put_existing_counterexample:
  "reachable 3 2
     \<lparr>m_capacity = 3, m_k = 2,
       m_historyList = [\<lparr>m_key = 1::int, m_value = ''A'', m_access_time = [1]\<rparr>],
       m_cacheList = [], m_history_map = {1}, m_cache_map = {}\<rparr> \<and>
   resident 1
     \<lparr>m_capacity = 3, m_k = 2,
       m_historyList = [\<lparr>m_key = 1::int, m_value = ''A'', m_access_time = [1]\<rparr>],
       m_cacheList = [], m_history_map = {1}, m_cache_map = {}\<rparr> \<and>
   put \<lparr>m_capacity = 3, m_k = 2,
         m_historyList = [\<lparr>m_key = 1::int, m_value = ''A'', m_access_time = [1]\<rparr>],
         m_cacheList = [], m_history_map = {1}, m_cache_map = {}\<rparr> 2 1 ''B'' =
     Some \<lparr>m_capacity = 3, m_k = 2, m_historyList = [],
            m_cacheList = [\<lparr>m_key = 1::int, m_value = ''B'', m_access_time = [1, 2]\<rparr>],
            m_history_map = {}, m_cache_map = {1}\<rparr> \<and>
   put \<lparr>m_capacity = 3, m_k = 2,
         m_historyList = [\<lparr>m_key = 1::int, m_value = ''A'', m_access_time = [1]\<rparr>],
         m_cacheList = [], m_history_map = {1}, m_cache_map = {}\<rparr> 2 1 ''B'' \<noteq>
     Some (overwrite 1 ''B''
       \<lparr>m_capacity = 3, m_k = 2,
         m_historyList = [\<lparr>m_key = 1::int, m_value = ''A'', m_access_time = [1]\<rparr>],
         m_cacheList = [], m_history_map = {1}, m_cache_map = {}\<rparr>)"
proof -
  let ?S = "\<lparr>m_capacity = 3, m_k = 2,
       m_historyList = [\<lparr>m_key = 1::int, m_value = ''A'', m_access_time = [1]\<rparr>],
       m_cacheList = [], m_history_map = {1}, m_cache_map = {}\<rparr>"
  have "run (LRUK_Cache_init 3 2) [(1, Put (1::int) ''A'')] = Some ?S"
    by (simp add: eval_defs)
  with reachable_init have r: "reachable 3 2 ?S" by (rule reachable_run)
  have p: "put ?S 2 1 ''B'' =
     Some \<lparr>m_capacity = 3, m_k = 2, m_historyList = [],
            m_cacheList = [\<lparr>m_key = 1::int, m_value = ''B'', m_access_time = [1, 2]\<rparr>],
            m_history_map = {}, m_cache_map = {1}\<rparr>"
    by (simp add: eval_defs)
  have o: "put ?S 2 1 ''B'' \<noteq> Some (overwrite 1 ''B'' ?S)"
    unfolding p by (simp add: overwrite_def)
  from r p o show ?thesis by (simp add: resident_def)
qed

text \<open>
  C1, amended: for a key present in a region of a reachable state, \<open>put(key, v)\<close> makes
  the state change of \<open>get(key)\<close>, which finds the key (the reading is recorded, the
  window slides, the cache list is sorted again or the history entry moves to the front
  or is promoted, with the demotion that may entail), and then overwrites the value
  stored under the key, changing nothing else.
\<close>

theorem put_existing_key:
  assumes "reachable c k s" and "resident key s"
  shows "\<exists>old s1. get s now key = Some (Some old, s1) \<and>
    put s now key v = Some (overwrite key v s1)"
proof -
  from assms(1) have i: "cache_inv s" by (rule inv_reachable)
  from get_resident [OF i assms(2), of now]
  obtain old s1 where g: "get s now key = Some (Some old, s1)" by blast
  from i g have "put s now key v = Some (overwrite key v s1)" by (rule put_after_get)
  with g show ?thesis by blast
qed

theorem put_existing_key_witness:
  "reachable 3 2
     \<lparr>m_capacity = 3, m_k = 2,
       m_historyList = [\<lparr>m_key = 1::int, m_value = ''A'', m_access_time = [1]\<rparr>],
       m_cacheList = [], m_history_map = {1}, m_cache_map = {}\<rparr> \<and>
   resident 1
     \<lparr>m_capacity = 3, m_k = 2,
       m_historyList = [\<lparr>m_key = 1::int, m_value = ''A'', m_access_time = [1]\<rparr>],
       m_cacheList = [], m_history_map = {1}, m_cache_map = {}\<rparr> \<and>
   (\<exists>old s1.
      get \<lparr>m_capacity = 3, m_k = 2,
            m_historyList = [\<lparr>m_key = 1::int, m_value = ''A'', m_access_time = [1]\<rparr>],
            m_cacheList = [], m_history_map = {1}, m_cache_map = {}\<rparr> 2 1 = Some (Some old, s1) \<and>
      put \<lparr>m_capacity = 3, m_k = 2,
            m_historyList = [\<lparr>m_key = 1::int, m_value = ''A'', m_access_time = [1]\<rparr>],
            m_cacheList = [], m_history_map = {1}, m_cache_map = {}\<rparr> 2 1 ''B'' =
        Some (overwrite 1 ''B'' s1))"
proof -
  let ?S = "\<lparr>m_capacity = 3, m_k = 2,
       m_historyList = [\<lparr>m_key = 1::int, m_value = ''A'', m_access_time = [1]\<rparr>],
       m_cacheList = [], m_history_map = {1}, m_cache_map = {}\<rparr>"
  have "run (LRUK_Cache_init 3 2) [(1, Put (1::int) ''A'')] = Some ?S"
    by (simp add: eval_defs)
  with reachable_init have r: "reachable 3 2 ?S" by (rule reachable_run)
  have p: "resident 1 ?S" by (simp add: resident_def)
  from put_existing_key [OF r p, of 2 "''B''"] r p show ?thesis by blast
qed

subsection \<open>Claim C2\<close>

text \<open>
  C2, as stated: in every reachable state an entry of the history list holds between 1
  and \<open>K - 1\<close> readings. With capacity 1 and \<open>K = 2\<close>, after \<open>put(1)\<close>, \<open>get(1)\<close>, \<open>put(2)\<close>,
  \<open>get(2)\<close> the entry of key 1 has been moved back from the cache list to the history
  list with its two readings: it holds \<open>K\<close> readings, not at most \<open>K - 1\<close>.
\<close>

theorem history_window_counterexample:
  "reachable 1 2
     \<lparr>m_capacity = 1, m_k = 2,
       m_historyList = [\<lparr>m_key = 1::int, m_value = ''A'', m_access_time = [1, 2]\<rparr>],
       m_cacheList = [\<lparr>m_key = 2, m_value = ''B'', m_access_time = [3, 4]\<rparr>],
       m_history_map = {1}, m_cache_map = {2}\<rparr> \<and>
   \<not> int (length (m_access_time \<lparr>m_key = 1::int, m_value = ''A'', m_access_time = [1, 2]\<rparr>))
      \<le> sint (2::cpp_int) - 1"
proof -
  have "run (LRUK_Cache_init 1 2)
     [(1, Put (1::int) ''A''), (2, Get 1), (3, Put 2 ''B''), (4, Get 2)] =
    Some \<lparr>m_capacity = 1, m_k = 2,
       m_historyList = [\<lparr>m_key = 1::int, m_value = ''A'', m_access_time = [1, 2]\<rparr>],
       m_cacheList = [\<lparr>m_key = 2, m_value = ''B'', m_access_time = [3, 4]\<rparr>],
       m_history_map = {1}, m_cache_map = {2}\<rparr>"
    by (simp add: eval_defs)
  with reachable_init have "reachable 1 2
     \<lparr>m_capacity = 1, m_k = 2,
       m_historyList = [\<lparr>m_key = 1::int, m_value = ''A'', m_access_time = [1, 2]\<rparr>],
       m_cacheList = [\<lparr>m_key = 2, m_value = ''B'', m_access_time = [3, 4]\<rparr>],
       m_history_map = {1}, m_cache_map = {2}\<rparr>" by (rule reachable_run)
  then show ?thesis by simp
qed

text \<open>
  C2, amended: in every reachable state of a cache constructed with \<open>K \<ge> 1\<close>, an entry of
  the cache list holds exactly \<open>K\<close> readings and an entry of the history list holds
  between 1 and \<open>K\<close> readings.
\<close>

theorem window_lengths:
  assumes "reachable c k s" and "1 \<le> sint k"
  shows "(\<forall>e \<in> set (m_cacheList s). int (length (m_access_time e)) = sint k) \<and>
    (\<forall>e \<in> set (m_historyList s).
       1 \<le> length (m_access_time e) \<and> int (length (m_access_time e)) \<le> sint k)"
proof -
  from assms(1) have i: "cache_inv s" by (rule inv_reachable)
  from assms(1) have k: "m_k s = k" using params_reachable by blast
  from assms(2) have "to_size_t k = nat (sint k)" by (simp add: to_size_t_nonneg)
  with assms(2) have "int (window k) = sint k" by (simp add: window_def)
  with i k show ?thesis by (auto simp: cache_inv_def windows_ok_def)
qed

theorem window_lengths_witness:
  "reachable 1 2
     \<lparr>m_capacity = 1, m_k = 2,
       m_historyList = [\<lparr>m_key = 1::int, m_value = ''A'', m_access_time = [1, 2]\<rparr>],
       m_cacheList = [\<lparr>m_key = 2, m_value = ''B'', m_access_time = [3, 4]\<rparr>],
       m_history_map = {1}, m_cache_map = {2}\<rparr> \<and>
   (1::int) \<le> sint (2::cpp_int) \<and>
   int (length [3::nat, 4]) = sint (2::cpp_int) \<and>
   1 \<le> length [1::nat, 2] \<and> int (length [1::nat, 2]) \<le> sint (2::cpp_int)"
proof -
  let ?S = "\<lparr>m_capacity = 1, m_k = 2,
       m_historyList = [\<lparr>m_key = 1::int, m_value = ''A'', m_access_time = [1, 2]\<rparr>],
       m_cacheList = [\<lparr>m_key = 2, m_value = ''B'', m_access_time = [3, 4]\<rparr>],
       m_history_map = {1}, m_cache_map = {2}\<rparr>"
  have "run (LRUK_Cache_init 1 2)
     [(1, Put (1::int) ''A''), (2, Get 1), (3, Put 2 ''B''), (4, Get 2)] = Some ?S"
    by (simp add: eval_defs)
  with reachable_init have r: "reachable 1 2 ?S" by (rule reachable_run)
  have k: "(1::int) \<le> sint (2::cpp_int)" by simp
  from window_lengths [OF r k] r show ?thesis by simp
qed

subsection \<open>Claim C3\<close>

text \<open>
  C3, as stated: a key enters the Hot Region exactly at the operation where its
  cumulative access count first reaches \<open>K\<close>, and at most once between its creation and
  its removal. With capacity 1 and \<open>K = 2\<close>, the calls \<open>put(1)\<close>, \<open>get(1)\<close>, \<open>put(2)\<close>,
  \<open>get(2)\<close>, \<open>get(1)\<close> are all defined, key 1 is resident in every state after the first
  call, and it enters the cache list twice: at the first \<open>get(1)\<close>, and again at the last
  one, after \<open>get(2)\<close> has demoted it. With \<open>K = 1\<close> the creating \<open>put(1)\<close> brings the count
  to \<open>K\<close> and leaves the key in the history list.
\<close>

theorem promotion_counterexample:
  "length (trace (LRUK_Cache_init 1 2)
     [(1, Put (1::int) ''A''), (2, Get 1), (3, Put 2 ''B''), (4, Get 2), (5, Get 1)]) = 6 \<and>
   list_all (resident 1) (tl (trace (LRUK_Cache_init 1 2)
     [(1, Put (1::int) ''A''), (2, Get 1), (3, Put 2 ''B''), (4, Get 2), (5, Get 1)])) \<and>
   promotions 1 (trace (LRUK_Cache_init 1 2)
     [(1, Put (1::int) ''A''), (2, Get 1), (3, Put 2 ''B''), (4, Get 2), (5, Get 1)]) = 2 \<and>
   put (LRUK_Cache_init 3 1) 1 (1::int) ''A'' =
     Some \<lparr>m_capacity = 3, m_k = 1,
       m_historyList = [\<lparr>m_key = 1::int, m_value = ''A'', m_access_time = [1]\<rparr>],
       m_cacheList = [], m_history_map = {1}, m_cache_map = {}\<rparr> \<and>
   int (length [1::nat]) = sint (1::cpp_int)"
  by (simp add: eval_defs resident_def)

text \<open>
  C3, amended. For a cache with \<open>K \<ge> 2\<close>, take any defined sequence of operations from a
  reachable state that begins with the \<open>put\<close> creating a key and during which the key stays
  resident. The key's cumulative access count is 1 for the creating \<open>put\<close> plus the
  number of later \<open>get\<close>s and \<open>put\<close>s of the key. If the key is in the Hot Region at the end,
  the count is at least \<open>K\<close>; and if the last operation is the access that brings the
  count to \<open>K\<close>, the key is in the Hot Region after it. Nothing is said of a bound on how
  often the key enters during one lifetime.
\<close>

theorem first_promotion:
  assumes "reachable c k s" and "2 \<le> sint k" and fresh: "\<not> resident key s"
    and run: "run s ((t0, Put key v) # ops) = Some s'"
    and res: "list_all (resident key) (tl (trace s ((t0, Put key v) # ops)))"
  shows "(key \<in> m_cache_map s' \<longrightarrow> sint k \<le> int (1 + accesses key ops)) \<and>
    (ops \<noteq> [] \<and> op_key (snd (last ops)) = Some key \<and> int (1 + accesses key ops) = sint k
       \<longrightarrow> key \<in> m_cache_map s')"
proof -
  let ?new = "\<lparr>m_key = key, m_value = v, m_access_time = [t0]\<rparr>"
  from assms(1) have i: "cache_inv s" by (rule inv_reachable)
  from assms(1) have k: "m_k s = k" using params_reachable by blast
  from assms(2) have ku: "to_size_t k = nat (sint k)" by (simp add: to_size_t_nonneg)
  from run obtain s0 where p: "put s t0 key v = Some s0" and rest: "run s0 ops = Some s'"
    by (auto split: option.splits)
  have i0: "cache_inv s0" using i p by (rule inv_put)
  have k0: "m_k s0 = k" using params_put [OF p] k by simp
  have e0: "find_entry key (m_historyList s0) = Some ?new" using fresh p by (rule put_fresh)
  from res p have all0: "list_all (resident key) (trace s0 ops)" by simp
  have never: "key \<in> m_cache_map s' \<longrightarrow> sint k \<le> int (1 + accesses key ops)"
  proof (rule impI, rule ccontr)
    assume hot: "key \<in> m_cache_map s'" and "\<not> sint k \<le> int (1 + accesses key ops)"
    with ku k0 have "length (m_access_time ?new) + accesses key ops < to_size_t (m_k s0)"
      by simp
    from history_count [OF i0 e0 rest all0 this]
    obtain e' where e': "find_entry key (m_historyList s') = Some e'" by blast
    have "cache_inv s'" using assms(1) run reachable_run inv_reachable by blast
    from history_entry_indexed(2) [OF this e'] hot show False by simp
  qed
  have at_k: "key \<in> m_cache_map s'"
    if ne: "ops \<noteq> []" and own: "op_key (snd (last ops)) = Some key"
      and cnt: "int (1 + accesses key ops) = sint k"
  proof -
    from ne obtain ops' x where ops: "ops = ops' @ [x]" by (cases ops rule: rev_cases) auto
    obtain now op where x: "x = (now, op)" by (cases x)
    from own ops x have own': "op_key op = Some key" by simp
    from rest have "(case run s0 ops' of None \<Rightarrow> None | Some s1 \<Rightarrow> run s1 [(now, op)]) = Some s'"
      unfolding ops x by (simp only: run_append)
    then obtain s1 where r1: "run s0 ops' = Some s1" and st: "step s1 (now, op) = Some s'"
      by (auto split: option.splits)
    from all0 have all1: "list_all (resident key) (trace s0 ops')"
      unfolding ops by (rule list_all_trace_prefix)
    have acc: "accesses key ops = accesses key ops' + 1"
      unfolding ops x using own' by (simp add: accesses_snoc)
    with cnt ku k0 assms(2)
    have small: "length (m_access_time ?new) + accesses key ops' < to_size_t (m_k s0)"
      by simp
    from history_count [OF i0 e0 r1 all1 small]
    obtain e1 where e1: "find_entry key (m_historyList s1) = Some e1"
      and l1: "length (m_access_time e1) = 1 + accesses key ops'" by auto
    have i1: "cache_inv s1"
    proof -
      have "reachable c k s0" using assms(1) p by (rule reachable_put)
      then have "reachable c k s1" using r1 by (rule reachable_run)
      then show ?thesis by (rule inv_reachable)
    qed
    have k1: "m_k s1 = k"
    proof -
      have "reachable c k s0" using assms(1) p by (rule reachable_put)
      then have "reachable c k s1" using r1 by (rule reachable_run)
      then show ?thesis using params_reachable by blast
    qed
    have out: "key \<notin> m_cache_map s1" using history_entry_indexed(2) [OF i1 e1] .
    from l1 acc cnt ku k1 assms(2)
    have "to_size_t (m_k s1) \<le> length (m_access_time e1) + 1" by simp
    with cache_map_step [OF i1 st out] own' e1 show ?thesis by simp
  qed
  from never at_k show ?thesis by blast
qed

theorem first_promotion_witness:
  "reachable 3 2 (LRUK_Cache_init 3 2 :: (int, string) LRUK_Cache) \<and>
   (2::int) \<le> sint (2::cpp_int) \<and>
   \<not> resident 1 (LRUK_Cache_init 3 2 :: (int, string) LRUK_Cache) \<and>
   run (LRUK_Cache_init 3 2) [(1, Put (1::int) ''A''), (2, Put 2 ''B''), (3, Get 1)] =
     Some \<lparr>m_capacity = 3, m_k = 2,
       m_historyList = [\<lparr>m_key = 2::int, m_value = ''B'', m_access_time = [2]\<rparr>],
       m_cacheList = [\<lparr>m_key = 1, m_value = ''A'', m_access_time = [1, 3]\<rparr>],
       m_history_map = {2}, m_cache_map = {1}\<rparr> \<and>
   list_all (resident 1)
     (tl (trace (LRUK_Cache_init 3 2) [(1, Put (1::int) ''A''), (2, Put 2 ''B''), (3, Get 1)])) \<and>
   (1::int) \<in> {1} \<and>
   sint (2::cpp_int) \<le> int (1 + accesses (1::int) [(2, Put 2 ''B''), (3, Get 1)]) \<and>
   op_key (snd (last [(2::nat, Put (2::int) ''B''), (3, Get 1)])) = Some 1 \<and>
   int (1 + accesses (1::int) [(2, Put 2 ''B''), (3, Get 1)]) = sint (2::cpp_int)"
proof -
  let ?S = "\<lparr>m_capacity = 3, m_k = 2,
       m_historyList = [\<lparr>m_key = 2::int, m_value = ''B'', m_access_time = [2]\<rparr>],
       m_cacheList = [\<lparr>m_key = 1, m_value = ''A'', m_access_time = [1, 3]\<rparr>],
       m_history_map = {2}, m_cache_map = {1}\<rparr>"
  have r: "reachable 3 2 (LRUK_Cache_init 3 2 :: (int, string) LRUK_Cache)"
    by (rule reachable_init)
  have k: "(2::int) \<le> sint (2::cpp_int)" by simp
  have f: "\<not> resident 1 (LRUK_Cache_init 3 2 :: (int, string) LRUK_Cache)"
    by (simp add: resident_def LRUK_Cache_init_def)
  have run: "run (LRUK_Cache_init 3 2)
      ((1, Put (1::int) ''A'') # [(2, Put 2 ''B''), (3, Get 1)]) = Some ?S"
    by (simp add: eval_defs)
  have res: "list_all (resident 1)
     (tl (trace (LRUK_Cache_init 3 2)
       ((1, Put (1::int) ''A'') # [(2, Put 2 ''B''), (3, Get 1)])))"
    by (simp add: eval_defs resident_def)
  from first_promotion [OF r k f run res] r f run res show ?thesis
    by (simp add: accesses_def)
qed

subsection \<open>Claim C4\<close>

text \<open>
  C4. In a reachable state of a cache with capacity \<open>C \<ge> 1\<close> and \<open>K \<ge> 1\<close> whose cache list
  holds \<open>C\<close> entries, a \<open>get\<close> or \<open>put\<close> of a key whose history entry reaches \<open>K\<close> readings with
  this access demotes exactly one member of the cache list: its last node, whose front
  reading is the oldest of all members. That node, unchanged (value and queue of
  readings as they were), becomes the front of the history list, from which the promoted
  entry is erased; the other members of the cache list all stay, and the promoted key
  takes the freed place.
\<close>

theorem hot_demotion:
  assumes "reachable c k s" and "1 \<le> sint c" and "1 \<le> sint k"
    and full: "int (length (m_cacheList s)) = sint c"
    and e0: "find_entry key (m_historyList s) = Some e0"
    and big: "sint k \<le> int (length (m_access_time e0)) + 1"
    and op: "op = Get key \<or> op = Put key v"
  shows "\<exists>s'. step s (now, op) = Some s' \<and>
    m_historyList s' = last (m_cacheList s) # erase_entry key (m_historyList s) \<and>
    last (m_cacheList s) \<in> set (m_cacheList s) \<and>
    (\<forall>e \<in> set (m_cacheList s). front_time (last (m_cacheList s)) \<le> front_time e) \<and>
    m_key ` set (m_cacheList s') =
      insert key (m_key ` set (m_cacheList s) - {m_key (last (m_cacheList s))}) \<and>
    set (butlast (m_cacheList s)) \<subseteq> set (m_cacheList s') \<and>
    length (m_cacheList s') = length (m_cacheList s)"
proof -
  let ?cl = "m_cacheList s"
  let ?ps = "promote_state s now key e0"
  from assms(1) have i: "cache_inv s" by (rule inv_reachable)
  from assms(1) have c: "m_capacity s = c" and k: "m_k s = k"
    using params_reachable by blast+
  from assms(2) have cu: "to_size_t c = nat (sint c)" by (simp add: to_size_t_nonneg)
  from assms(3) have "to_size_t k = nat (sint k)" by (simp add: to_size_t_nonneg)
  with big k have b: "to_size_t (m_k s) \<le> length (m_access_time e0) + 1" by simp
  from full cu c have nf: "\<not> length ?cl < to_size_t (m_capacity s)" by simp
  from full assms(2) have ne: "?cl \<noteq> []" by auto
  then have vin: "last ?cl \<in> set ?cl" by simp
  have dc: "distinct (map m_key ?cl)" using i by (simp add: cache_inv_def index_ok_def)
  have kout: "key \<notin> m_key ` set ?cl"
    using history_entry_indexed(2) [OF i e0] i by (simp add: cache_inv_def index_ok_def)
  have stale: "\<forall>e \<in> set ?cl. front_time (last ?cl) \<le> front_time e"
    using i last_is_stalest [of ?cl] by (simp add: cache_inv_def)
  have ips: "cache_inv ?ps" using i e0 b by (rule inv_promote_state)
  have hl: "m_historyList ?ps = last ?cl # erase_entry key (m_historyList s)"
    using nf by (simp add: promote_state_def)
  have cl: "m_cacheList ?ps =
      list_sort compareByAccessTime (butlast ?cl @ [promoted (m_k s) now e0])"
    using nf by (simp add: promote_state_def)
  have keys: "m_key ` set (m_cacheList ?ps) = insert key (m_key ` set ?cl - {m_key (last ?cl)})"
    using keys_butlast [OF ne dc] history_entry_indexed(3) [OF i e0]
    by (simp add: cl set_list_sort)
  have sub: "set (butlast ?cl) \<subseteq> set (m_cacheList ?ps)"
    by (auto simp: cl set_list_sort)
  have len: "length (m_cacheList ?ps) = length ?cl"
    using ne by (simp add: cl length_list_sort)
  have kin: "key \<in> m_key ` set (m_cacheList ?ps)" using keys by simp
  have others: "\<forall>e \<in> set (butlast ?cl). m_key e \<noteq> key"
    using kout in_set_butlastD [of _ ?cl] by auto
  from step_promote [OF i e0 b op, of now]
  consider "step s (now, op) = Some ?ps"
    | "step s (now, op) = Some (overwrite key v ?ps)" by blast
  then show ?thesis
  proof cases
    case 1
    with hl vin stale keys sub len show ?thesis by blast
  next
    case 2
    have "set (butlast ?cl) \<subseteq> set (m_cacheList (overwrite key v ?ps))"
      using sub others overwrite_cached(4) [OF ips kin] by blast
    with 2 hl vin stale keys len overwrite_cached(1,2,3) [OF ips kin, of v]
    show ?thesis by auto
  qed
qed

theorem hot_demotion_witness:
  "reachable 3 2
     \<lparr>m_capacity = 3, m_k = 2,
       m_historyList =
         [\<lparr>m_key = 7::int, m_value = ''G'', m_access_time = [10]\<rparr>,
          \<lparr>m_key = 6, m_value = ''F'', m_access_time = [9]\<rparr>,
          \<lparr>m_key = 5, m_value = ''E'', m_access_time = [8]\<rparr>],
       m_cacheList =
         [\<lparr>m_key = 4, m_value = ''D'', m_access_time = [4, 7]\<rparr>,
          \<lparr>m_key = 3, m_value = ''C1'', m_access_time = [3, 6]\<rparr>,
          \<lparr>m_key = 2, m_value = ''B'', m_access_time = [2, 5]\<rparr>],
       m_history_map = {7, 6, 5}, m_cache_map = {4, 3, 2}\<rparr> \<and>
   (1::int) \<le> sint (3::cpp_int) \<and> (1::int) \<le> sint (2::cpp_int) \<and>
   int (length [4::int, 3, 2]) = sint (3::cpp_int) \<and>
   sint (2::cpp_int) \<le> int (length [8::nat]) + 1 \<and>
   step
     \<lparr>m_capacity = 3, m_k = 2,
       m_historyList =
         [\<lparr>m_key = 7::int, m_value = ''G'', m_access_time = [10]\<rparr>,
          \<lparr>m_key = 6, m_value = ''F'', m_access_time = [9]\<rparr>,
          \<lparr>m_key = 5, m_value = ''E'', m_access_time = [8]\<rparr>],
       m_cacheList =
         [\<lparr>m_key = 4, m_value = ''D'', m_access_time = [4, 7]\<rparr>,
          \<lparr>m_key = 3, m_value = ''C1'', m_access_time = [3, 6]\<rparr>,
          \<lparr>m_key = 2, m_value = ''B'', m_access_time = [2, 5]\<rparr>],
       m_history_map = {7, 6, 5}, m_cache_map = {4, 3, 2}\<rparr> (11, Put 5 ''E1'') =
   Some
     \<lparr>m_capacity = 3, m_k = 2,
       m_historyList =
         [\<lparr>m_key = 2::int, m_value = ''B'', m_access_time = [2, 5]\<rparr>,
          \<lparr>m_key = 7, m_value = ''G'', m_access_time = [10]\<rparr>,
          \<lparr>m_key = 6, m_value = ''F'', m_access_time = [9]\<rparr>],
       m_cacheList =
         [\<lparr>m_key = 5, m_value = ''E1'', m_access_time = [8, 11]\<rparr>,
          \<lparr>m_key = 4, m_value = ''D'', m_access_time = [4, 7]\<rparr>,
          \<lparr>m_key = 3, m_value = ''C1'', m_access_time = [3, 6]\<rparr>],
       m_history_map = {2, 7, 6}, m_cache_map = {5, 4, 3}\<rparr>"
proof -
  let ?S = "\<lparr>m_capacity = 3, m_k = 2,
       m_historyList =
         [\<lparr>m_key = 7::int, m_value = ''G'', m_access_time = [10]\<rparr>,
          \<lparr>m_key = 6, m_value = ''F'', m_access_time = [9]\<rparr>,
          \<lparr>m_key = 5, m_value = ''E'', m_access_time = [8]\<rparr>],
       m_cacheList =
         [\<lparr>m_key = 4, m_value = ''D'', m_access_time = [4, 7]\<rparr>,
          \<lparr>m_key = 3, m_value = ''C1'', m_access_time = [3, 6]\<rparr>,
          \<lparr>m_key = 2, m_value = ''B'', m_access_time = [2, 5]\<rparr>],
       m_history_map = {7, 6, 5}, m_cache_map = {4, 3, 2}\<rparr>"
  let ?E = "\<lparr>m_key = 5::int, m_value = ''E'', m_access_time = [8::nat]\<rparr>"
  have "run (LRUK_Cache_init 3 2)
     [(1, Put (1::int) ''A''), (2, Put 2 ''B''), (3, Put 3 ''C''), (4, Put 4 ''D''), (5, Get 2),
      (6, Put 3 ''C1''), (7, Get 4), (8, Put 5 ''E''), (9, Put 6 ''F''), (10, Put 7 ''G'')] =
    Some ?S"
    by (simp add: eval_defs)
  with reachable_init have r: "reachable 3 2 ?S" by (rule reachable_run)
  have c: "(1::int) \<le> sint (3::cpp_int)" and k: "(1::int) \<le> sint (2::cpp_int)" by simp_all
  have f: "int (length (m_cacheList ?S)) = sint (3::cpp_int)" by simp
  have e: "find_entry 5 (m_historyList ?S) = Some ?E" by simp
  have b: "sint (2::cpp_int) \<le> int (length (m_access_time ?E)) + 1" by simp
  have o: "Put (5::int) ''E1'' = Get 5 \<or> Put (5::int) ''E1'' = Put 5 ''E1''" by simp
  have s: "step ?S (11, Put 5 ''E1'') = Some
     \<lparr>m_capacity = 3, m_k = 2,
       m_historyList =
         [\<lparr>m_key = 2::int, m_value = ''B'', m_access_time = [2, 5]\<rparr>,
          \<lparr>m_key = 7, m_value = ''G'', m_access_time = [10]\<rparr>,
          \<lparr>m_key = 6, m_value = ''F'', m_access_time = [9]\<rparr>],
       m_cacheList =
         [\<lparr>m_key = 5, m_value = ''E1'', m_access_time = [8, 11]\<rparr>,
          \<lparr>m_key = 4, m_value = ''D'', m_access_time = [4, 7]\<rparr>,
          \<lparr>m_key = 3, m_value = ''C1'', m_access_time = [3, 6]\<rparr>],
       m_history_map = {2, 7, 6}, m_cache_map = {5, 4, 3}\<rparr>"
    by (simp add: eval_defs)
  from hot_demotion [OF r c k f e b o, of 11] r s show ?thesis by simp
qed

subsection \<open>Claim C5\<close>




subsection \<open>Claim C6\<close>

text \<open>
  C6. The scenario of \<^verbatim>\<open>main\<close>, capacity 3 and \<open>K = 2\<close>, from the constructed cache, for any
  strictly increasing clock readings \<open>t1 < \<dots> < t13\<close>: after \<open>put(1,A)\<close>, \<open>put(2,B)\<close>,
  \<open>put(3,C)\<close>, \<open>put(4,D)\<close>, \<open>get(2)\<close>, \<open>put(3,C1)\<close>, \<open>get(4)\<close>, \<open>put(5,E)\<close>, \<open>put(6,F)\<close>,
  \<open>put(7,G)\<close>, \<open>put(5,E1)\<close> the cache list holds the keys 5, 4, 3 in this order, key 2 is
  at the front of the history list, and the following \<open>get(7)\<close> and \<open>get(4)\<close> find the
  values \<open>G\<close> and \<open>D\<close>.
\<close>

theorem main_scenario:
  assumes "t1 < t2" and "t2 < t3" and "t3 < t4" and "t4 < t5" and "t5 < t6" and "t6 < t7"
    and "t7 < t8" and "t8 < t9" and "t9 < t10" and "t10 < t11" and "t11 < t12" and "t12 < t13"
  shows "\<exists>S S' S''.
    run (LRUK_Cache_init 3 2)
      [(t1, Put (1::int) ''A''), (t2, Put 2 ''B''), (t3, Put 3 ''C''), (t4, Put 4 ''D''),
       (t5, Get 2), (t6, Put 3 ''C1''), (t7, Get 4), (t8, Put 5 ''E''), (t9, Put 6 ''F''),
       (t10, Put 7 ''G''), (t11, Put 5 ''E1'')] = Some S \<and>
    map m_key (m_cacheList S) = [5, 4, 3] \<and> m_cache_map S = {5, 4, 3} \<and>
    map m_key (m_historyList S) = [2, 7, 6] \<and> m_history_map S = {2, 7, 6} \<and>
    get S t12 7 = Some (Some ''G'', S') \<and> get S' t13 4 = Some (Some ''D'', S'')"
proof -
  let ?S = "\<lparr>m_capacity = 3, m_k = 2,
      m_historyList =
        [\<lparr>m_key = 2::int, m_value = ''B'', m_access_time = [t2, t5]\<rparr>,
         \<lparr>m_key = 7, m_value = ''G'', m_access_time = [t10]\<rparr>,
         \<lparr>m_key = 6, m_value = ''F'', m_access_time = [t9]\<rparr>],
      m_cacheList =
        [\<lparr>m_key = 5, m_value = ''E1'', m_access_time = [t8, t11]\<rparr>,
         \<lparr>m_key = 4, m_value = ''D'', m_access_time = [t4, t7]\<rparr>,
         \<lparr>m_key = 3, m_value = ''C1'', m_access_time = [t3, t6]\<rparr>],
      m_history_map = {2, 7, 6}, m_cache_map = {5, 4, 3}\<rparr>"
  let ?S' = "\<lparr>m_capacity = 3, m_k = 2,
      m_historyList =
        [\<lparr>m_key = 3::int, m_value = ''C1'', m_access_time = [t3, t6]\<rparr>,
         \<lparr>m_key = 2, m_value = ''B'', m_access_time = [t2, t5]\<rparr>,
         \<lparr>m_key = 6, m_value = ''F'', m_access_time = [t9]\<rparr>],
      m_cacheList =
        [\<lparr>m_key = 7, m_value = ''G'', m_access_time = [t10, t12]\<rparr>,
         \<lparr>m_key = 5, m_value = ''E1'', m_access_time = [t8, t11]\<rparr>,
         \<lparr>m_key = 4, m_value = ''D'', m_access_time = [t4, t7]\<rparr>],
      m_history_map = {3, 2, 6}, m_cache_map = {7, 5, 4}\<rparr>"
  let ?S'' = "\<lparr>m_capacity = 3, m_k = 2,
      m_historyList =
        [\<lparr>m_key = 3::int, m_value = ''C1'', m_access_time = [t3, t6]\<rparr>,
         \<lparr>m_key = 2, m_value = ''B'', m_access_time = [t2, t5]\<rparr>,
         \<lparr>m_key = 6, m_value = ''F'', m_access_time = [t9]\<rparr>],
      m_cacheList =
        [\<lparr>m_key = 7, m_value = ''G'', m_access_time = [t10, t12]\<rparr>,
         \<lparr>m_key = 5, m_value = ''E1'', m_access_time = [t8, t11]\<rparr>,
         \<lparr>m_key = 4, m_value = ''D'', m_access_time = [t7, t13]\<rparr>],
      m_history_map = {3, 2, 6}, m_cache_map = {7, 5, 4}\<rparr>"
  have a: "run (LRUK_Cache_init 3 2)
      [(t1, Put (1::int) ''A''), (t2, Put 2 ''B''), (t3, Put 3 ''C''), (t4, Put 4 ''D''),
       (t5, Get 2), (t6, Put 3 ''C1''), (t7, Get 4), (t8, Put 5 ''E''), (t9, Put 6 ''F''),
       (t10, Put 7 ''G''), (t11, Put 5 ''E1'')] = Some ?S"
    using assms by (simp add: eval_defs)
  have b: "get ?S t12 7 = Some (Some ''G'', ?S')"
    using assms by (simp add: eval_defs)
  have c: "get ?S' t13 4 = Some (Some ''D'', ?S'')"
    using assms by (simp add: eval_defs insert_commute)
  have d: "map m_key (m_cacheList ?S) = [5, 4, 3] \<and> m_cache_map ?S = {5, 4, 3} \<and>
    map m_key (m_historyList ?S) = [2, 7, 6] \<and> m_history_map ?S = {2, 7, 6}"
    by simp
  show ?thesis
  proof (intro exI conjI)
    show "run (LRUK_Cache_init 3 2)
      [(t1, Put (1::int) ''A''), (t2, Put 2 ''B''), (t3, Put 3 ''C''), (t4, Put 4 ''D''),
       (t5, Get 2), (t6, Put 3 ''C1''), (t7, Get 4), (t8, Put 5 ''E''), (t9, Put 6 ''F''),
       (t10, Put 7 ''G''), (t11, Put 5 ''E1'')] = Some ?S" by (rule a)
    show "get ?S t12 7 = Some (Some ''G'', ?S')" by (rule b)
    show "get ?S' t13 4 = Some (Some ''D'', ?S'')" by (rule c)
  qed (simp_all only: d)
qed

theorem main_scenario_witness:
  "(1::nat) < 2 \<and> (2::nat) < 3 \<and> (3::nat) < 4 \<and> (4::nat) < 5 \<and> (5::nat) < 6 \<and> (6::nat) < 7 \<and>
   (7::nat) < 8 \<and> (8::nat) < 9 \<and> (9::nat) < 10 \<and> (10::nat) < 11 \<and> (11::nat) < 12 \<and>
   (12::nat) < 13 \<and>
   (\<exists>S S' S''.
    run (LRUK_Cache_init 3 2)
      [(1, Put (1::int) ''A''), (2, Put 2 ''B''), (3, Put 3 ''C''), (4, Put 4 ''D''),
       (5, Get 2), (6, Put 3 ''C1''), (7, Get 4), (8, Put 5 ''E''), (9, Put 6 ''F''),
       (10, Put 7 ''G''), (11, Put 5 ''E1'')] = Some S \<and>
    map m_key (m_cacheList S) = [5, 4, 3] \<and> m_cache_map S = {5, 4, 3} \<and>
    map m_key (m_historyList S) = [2, 7, 6] \<and> m_history_map S = {2, 7, 6} \<and>
    get S 12 7 = Some (Some ''G'', S') \<and> get S' 13 4 = Some (Some ''D'', S''))"
  using main_scenario [of 1 2 3 4 5 6 7 8 9 10 11 12 13] by simp

subsection \<open>Claim C7\<close>

text \<open>
  C7. In every state reachable by \<open>get\<close>, \<open>put\<close> and \<open>clear\<close> from a cache constructed
  with capacity \<open>C \<ge> 1\<close> and \<open>K \<ge> 1\<close>, the history list holds at most \<open>C\<close> entries, the
  cache list holds at most \<open>C\<close> entries, and no key is in both regions, whether a region
  is read off its list or off its index map.
\<close>

theorem sizes_and_disjoint:
  assumes "reachable c k s" and "1 \<le> sint c" and "1 \<le> sint k"
  shows "int (length (m_historyList s)) \<le> sint c \<and> int (length (m_cacheList s)) \<le> sint c \<and>
    m_key ` set (m_historyList s) \<inter> m_key ` set (m_cacheList s) = {} \<and>
    m_history_map s \<inter> m_cache_map s = {}"
proof -
  from assms(1) have i: "cache_inv s" by (rule inv_reachable)
  from assms(1) have c: "m_capacity s = c" using params_reachable by blast
  from assms(2) have "to_size_t c = nat (sint c)" by (simp add: to_size_t_nonneg)
  with i c have "length (m_historyList s) \<le> nat (sint c)"
    and "length (m_cacheList s) \<le> nat (sint c)"
    by (simp_all add: cache_inv_def sizes_ok_def)
  with assms(2) have "int (length (m_historyList s)) \<le> sint c"
    and "int (length (m_cacheList s)) \<le> sint c" by linarith+
  moreover from i have "m_key ` set (m_historyList s) \<inter> m_key ` set (m_cacheList s) = {}"
    by (simp add: cache_inv_def index_ok_def)
  moreover from i have "m_history_map s \<inter> m_cache_map s = {}"
    by (simp add: cache_inv_def index_ok_def)
  ultimately show ?thesis by blast
qed

theorem sizes_and_disjoint_witness:
  "reachable 3 2
     \<lparr>m_capacity = 3, m_k = 2,
       m_historyList =
         [\<lparr>m_key = 7::int, m_value = ''G'', m_access_time = [10]\<rparr>,
          \<lparr>m_key = 6, m_value = ''F'', m_access_time = [9]\<rparr>,
          \<lparr>m_key = 5, m_value = ''E'', m_access_time = [8]\<rparr>],
       m_cacheList =
         [\<lparr>m_key = 4, m_value = ''D'', m_access_time = [4, 7]\<rparr>,
          \<lparr>m_key = 3, m_value = ''C1'', m_access_time = [3, 6]\<rparr>,
          \<lparr>m_key = 2, m_value = ''B'', m_access_time = [2, 5]\<rparr>],
       m_history_map = {7, 6, 5}, m_cache_map = {4, 3, 2}\<rparr> \<and>
   (1::int) \<le> sint (3::cpp_int) \<and> (1::int) \<le> sint (2::cpp_int) \<and>
   int (length [7::int, 6, 5]) \<le> sint (3::cpp_int) \<and>
   int (length [4::int, 3, 2]) \<le> sint (3::cpp_int) \<and>
   {7::int, 6, 5} \<inter> {4, 3, 2} = {}"
proof -
  let ?S = "\<lparr>m_capacity = 3, m_k = 2,
       m_historyList =
         [\<lparr>m_key = 7::int, m_value = ''G'', m_access_time = [10]\<rparr>,
          \<lparr>m_key = 6, m_value = ''F'', m_access_time = [9]\<rparr>,
          \<lparr>m_key = 5, m_value = ''E'', m_access_time = [8]\<rparr>],
       m_cacheList =
         [\<lparr>m_key = 4, m_value = ''D'', m_access_time = [4, 7]\<rparr>,
          \<lparr>m_key = 3, m_value = ''C1'', m_access_time = [3, 6]\<rparr>,
          \<lparr>m_key = 2, m_value = ''B'', m_access_time = [2, 5]\<rparr>],
       m_history_map = {7, 6, 5}, m_cache_map = {4, 3, 2}\<rparr>"
  have "run (LRUK_Cache_init 3 2)
     [(1, Put (1::int) ''A''), (2, Put 2 ''B''), (3, Put 3 ''C''), (4, Put 4 ''D''), (5, Get 2),
      (6, Put 3 ''C1''), (7, Get 4), (8, Put 5 ''E''), (9, Put 6 ''F''), (10, Put 7 ''G'')] =
    Some ?S"
    by (simp add: eval_defs)
  with reachable_init have r: "reachable 3 2 ?S" by (rule reachable_run)
  have c: "(1::int) \<le> sint (3::cpp_int)" and k: "(1::int) \<le> sint (2::cpp_int)" by simp_all
  from sizes_and_disjoint [OF r c k] r c k show ?thesis by simp
qed

subsection \<open>Claim C8\<close>

text \<open>
  C8. In every reachable state the cache list, read from front to back, is ordered by
  non-increasing front reading (the oldest of the retained readings): an entry at
  position \<open>i\<close> has a front reading at least as recent as any entry at a later position
  \<open>j\<close>, in particular the next one. The queues of these entries are not empty, so the
  front reading exists.
\<close>

theorem hot_order:
  assumes "reachable c k s" and "i < j" and "j < length (m_cacheList s)"
  shows "front_time (m_cacheList s ! j) \<le> front_time (m_cacheList s ! i) \<and>
    m_access_time (m_cacheList s ! i) \<noteq> [] \<and> m_access_time (m_cacheList s ! j) \<noteq> []"
proof -
  from assms(1) have i: "cache_inv s" by (rule inv_reachable)
  then have "newer_first (m_cacheList s)" by (simp add: cache_inv_def)
  then have le: "front_time (m_cacheList s ! j) \<le> front_time (m_cacheList s ! i)"
    using assms(2,3) by (rule front_times_sorted)
  have w: "\<forall>e \<in> set (m_cacheList s). length (m_access_time e) = window (m_k s)"
    using i by (simp add: cache_inv_def windows_ok_def)
  have "m_cacheList s ! i \<in> set (m_cacheList s)" and "m_cacheList s ! j \<in> set (m_cacheList s)"
    using assms(2,3) by simp_all
  with w have "length (m_access_time (m_cacheList s ! i)) = window (m_k s)"
    and "length (m_access_time (m_cacheList s ! j)) = window (m_k s)" by blast+
  with window_pos [of "m_k s"] have "m_access_time (m_cacheList s ! i) \<noteq> []"
    and "m_access_time (m_cacheList s ! j) \<noteq> []" by auto
  with le show ?thesis by simp
qed

theorem hot_order_witness:
  "reachable 3 2
     \<lparr>m_capacity = 3, m_k = 2, m_historyList = [],
       m_cacheList =
         [\<lparr>m_key = 4::int, m_value = ''D'', m_access_time = [4, 7]\<rparr>,
          \<lparr>m_key = 3, m_value = ''C1'', m_access_time = [3, 6]\<rparr>,
          \<lparr>m_key = 2, m_value = ''B'', m_access_time = [2, 5]\<rparr>],
       m_history_map = {}, m_cache_map = {4, 3, 2}\<rparr> \<and>
   (0::nat) < 1 \<and> (1::nat) < length [4::int, 3, 2] \<and>
   front_time \<lparr>m_key = 3::int, m_value = ''C1'', m_access_time = [3, 6]\<rparr>
     \<le> front_time \<lparr>m_key = 4::int, m_value = ''D'', m_access_time = [4, 7]\<rparr>"
proof -
  let ?S = "\<lparr>m_capacity = 3, m_k = 2, m_historyList = [],
       m_cacheList =
         [\<lparr>m_key = 4::int, m_value = ''D'', m_access_time = [4, 7]\<rparr>,
          \<lparr>m_key = 3, m_value = ''C1'', m_access_time = [3, 6]\<rparr>,
          \<lparr>m_key = 2, m_value = ''B'', m_access_time = [2, 5]\<rparr>],
       m_history_map = {}, m_cache_map = {4, 3, 2}\<rparr>"
  have "run (LRUK_Cache_init 3 2)
     [(1, Put (1::int) ''A''), (2, Put 2 ''B''), (3, Put 3 ''C''), (4, Put 4 ''D''), (5, Get 2),
      (6, Put 3 ''C1''), (7, Get 4)] = Some ?S"
    by (simp add: eval_defs)
  with reachable_init have r: "reachable 3 2 ?S" by (rule reachable_run)
  have i: "(0::nat) < 1" and j: "1 < length (m_cacheList ?S)" by simp_all
  from hot_order [OF r i j] r show ?thesis by simp
qed

subsection \<open>Claim C9\<close>

text \<open>
  C9, as stated: constructing the cache with capacity \<open>\<le> 0\<close> or \<open>k \<le> 0\<close> is rejected.
  The constructor only stores its arguments; construction with 0 or negative arguments
  yields an instance.
\<close>

theorem construct_counterexample:
  "sint (0::cpp_int) \<le> 0 \<and> sint (- 1::cpp_int) \<le> 0 \<and>
   (construct 0 2 :: (int, string) LRUK_Cache option) \<noteq> None \<and>
   (construct 3 0 :: (int, string) LRUK_Cache option) \<noteq> None \<and>
   (construct (- 1) (- 1) :: (int, string) LRUK_Cache option) \<noteq> None"
  by (simp add: construct_def)

text \<open>
  C9, amended: for every capacity and every \<open>k\<close>, also those \<open>\<le> 0\<close>, construction
  succeeds: it stores both arguments unchecked and leaves both lists and both index
  maps empty.
\<close>

theorem construct_total:
  "construct c k =
     Some \<lparr>m_capacity = c, m_k = k, m_historyList = [], m_cacheList = [],
            m_history_map = {}, m_cache_map = {}\<rparr>"
  by (simp add: construct_def LRUK_Cache_init_def)

subsection \<open>Claim C10\<close>

text \<open>
  C10. In a reachable state (with \<open>K \<ge> 1\<close>) in which a key is in the history list with a
  queue of \<open>K\<close> readings, as after a demotion, one \<open>get\<close> of that key finds its value,
  records the new reading, drops the oldest one, and leaves the entry in the cache list
  and no longer in the history list.
\<close>

theorem demoted_repromoted:
  assumes "reachable c k s" and "1 \<le> sint k"
    and e: "find_entry key (m_historyList s) = Some e"
    and len: "int (length (m_access_time e)) = sint k"
  shows "\<exists>s'. get s now key = Some (Some (m_value e), s') \<and>
    find_entry key (m_cacheList s') = Some (e\<lparr>m_access_time := tl (m_access_time e) @ [now]\<rparr>) \<and>
    find_entry key (m_historyList s') = None \<and>
    key \<in> m_cache_map s' \<and> key \<notin> m_history_map s'"
proof -
  from assms(1) have i: "cache_inv s" by (rule inv_reachable)
  from assms(1) have k: "m_k s = k" using params_reachable by blast
  from assms(2) have ku: "to_size_t k = nat (sint k)" by (simp add: to_size_t_nonneg)
  with len assms(2) have l: "length (m_access_time e) = to_size_t k" by simp
  with k have big: "to_size_t (m_k s) \<le> length (m_access_time e) + 1" by simp
  from l ku assms(2) have ne: "m_access_time e \<noteq> []" by auto
  with l have p: "promoted k now e = e\<lparr>m_access_time := tl (m_access_time e) @ [now]\<rparr>"
    by (simp add: promoted_def push_time_def pop_time_def)
  let ?s' = "promote_state s now key e"
  have g: "get s now key = Some (Some (m_value e), ?s')"
    using i e big by (rule get_promote)
  have f: "find_entry key (m_cacheList ?s') = Some (promoted k now e)"
    using find_promoted [OF i e big, of now] k by simp
  have i': "cache_inv ?s'" using i e big by (rule inv_promote_state)
  from f have kc: "key \<in> m_key ` set (m_cacheList ?s')"
    using find_entry_SomeD by fastforce
  with i' have kh: "key \<notin> m_key ` set (m_historyList ?s')"
    by (auto simp: cache_inv_def index_ok_def)
  then have fh: "find_entry key (m_historyList ?s') = None"
    by (simp add: find_entry_None_iff)
  from i' kc kh have "key \<in> m_cache_map ?s'" and "key \<notin> m_history_map ?s'"
    by (simp_all add: cache_inv_def index_ok_def)
  with g f p fh show ?thesis by auto
qed

theorem demoted_repromoted_witness:
  "reachable 1 2
     \<lparr>m_capacity = 1, m_k = 2,
       m_historyList = [\<lparr>m_key = 1::int, m_value = ''A'', m_access_time = [1, 2]\<rparr>],
       m_cacheList = [\<lparr>m_key = 2, m_value = ''B'', m_access_time = [3, 4]\<rparr>],
       m_history_map = {1}, m_cache_map = {2}\<rparr> \<and>
   (1::int) \<le> sint (2::cpp_int) \<and>
   find_entry 1 [\<lparr>m_key = 1::int, m_value = ''A'', m_access_time = [1, 2]\<rparr>] =
     Some \<lparr>m_key = 1::int, m_value = ''A'', m_access_time = [1, 2]\<rparr> \<and>
   int (length [1::nat, 2]) = sint (2::cpp_int) \<and>
   (\<exists>s'. get \<lparr>m_capacity = 1, m_k = 2,
       m_historyList = [\<lparr>m_key = 1::int, m_value = ''A'', m_access_time = [1, 2]\<rparr>],
       m_cacheList = [\<lparr>m_key = 2, m_value = ''B'', m_access_time = [3, 4]\<rparr>],
       m_history_map = {1}, m_cache_map = {2}\<rparr> 5 1 = Some (Some ''A'', s') \<and>
     find_entry 1 (m_cacheList s') = Some \<lparr>m_key = 1::int, m_value = ''A'', m_access_time = [2, 5]\<rparr> \<and>
     find_entry 1 (m_historyList s') = None \<and>
     1 \<in> m_cache_map s' \<and> 1 \<notin> m_history_map s')"
proof -
  let ?S = "\<lparr>m_capacity = 1, m_k = 2,
       m_historyList = [\<lparr>m_key = 1::int, m_value = ''A'', m_access_time = [1, 2]\<rparr>],
       m_cacheList = [\<lparr>m_key = 2, m_value = ''B'', m_access_time = [3, 4]\<rparr>],
       m_history_map = {1}, m_cache_map = {2}\<rparr>"
  let ?E = "\<lparr>m_key = 1::int, m_value = ''A'', m_access_time = [1::nat, 2]\<rparr>"
  have "run (LRUK_Cache_init 1 2)
     [(1, Put (1::int) ''A''), (2, Get 1), (3, Put 2 ''B''), (4, Get 2)] = Some ?S"
    by (simp add: eval_defs)
  with reachable_init have r: "reachable 1 2 ?S" by (rule reachable_run)
  have k: "(1::int) \<le> sint (2::cpp_int)" by simp
  have e: "find_entry 1 (m_historyList ?S) = Some ?E" by simp
  have l: "int (length (m_access_time ?E)) = sint (2::cpp_int)" by simp
  from demoted_repromoted [OF r k e l, of 5] r show ?thesis by simp
qed

end
